theory Spec2Isabelle
  imports Main
begin

section \<open>Python values\<close>

text \<open>
  Events, replacement values and the template index are JSON-like Python values. A
  \<^verbatim>\<open>dict\<close> is an association list in insertion order (keys are strings). The
  values of this type are trees: the template index and the events of the template
  replacer, where no object is reached under two keys. The generic resolver applies its
  rules on a store of objects, introduced with it. Floats are not modelled.
\<close>

datatype val =
    VNone
  | VBool bool
  | VInt int
  | VStr string
  | VList "val list"
  | VDict "(string \<times> val) list"

type_synonym pydict = "(string \<times> val) list"

text \<open>Exceptions that the two processors raise or let through.\<close>

datatype template_problem = NotEnoughDelimiters string "string list" | TemplateInvalid

datatype exn =
    KeyError
  | AttributeError
  | TypeError
  | ValueError
  | FileNotFoundError
  | HyperscanError string
  | GenericResolverError string string
  | DuplicationError string "string list"
  | RecursionError
  | TemplateReplacerError string template_problem

text \<open>\<^verbatim>\<open>d[k] = v\<close>: an existing key keeps its position, a new key goes last.\<close>

fun dict_set :: "'k \<Rightarrow> 'v \<Rightarrow> ('k \<times> 'v) list \<Rightarrow> ('k \<times> 'v) list" where
  "dict_set k v [] = [(k, v)]"
| "dict_set k v ((k', v') # d) = (if k = k' then (k, v) # d else (k', v') # dict_set k v d)"

text \<open>\<^verbatim>\<open>bool(v)\<close>.\<close>

fun py_truthy :: "val \<Rightarrow> bool" where
  "py_truthy VNone = False"
| "py_truthy (VBool b) = b"
| "py_truthy (VInt i) = (i \<noteq> 0)"
| "py_truthy (VStr s) = (s \<noteq> [])"
| "py_truthy (VList xs) = (xs \<noteq> [])"
| "py_truthy (VDict d) = (d \<noteq> [])"

lemma map_of_size_val:
  "map_of d k = Some v \<Longrightarrow> size v < Suc (size_list (size_prod (\<lambda>_. 0) size) d)"
  by (induction d) (auto split: if_splits)

lemma nth_size_val: "i < length xs \<Longrightarrow> size (xs ! i) < Suc (size_list size (xs :: val list))"
  using size_list_estimation' [of "xs ! i" xs "size (xs ! i)" size]
  by (simp add: less_Suc_eq_le)

text \<open>
  \<^verbatim>\<open>a == b\<close>: \<^verbatim>\<open>True == 1\<close> and \<^verbatim>\<open>False == 0\<close> hold, lists compare
  elementwise, dicts compare by size and by the value under each key, whatever the order.
\<close>

function py_eq :: "val \<Rightarrow> val \<Rightarrow> bool" where
  "py_eq VNone b = (b = VNone)"
| "py_eq (VBool x) b =
     (case b of VBool y \<Rightarrow> x = y | VInt j \<Rightarrow> (if x then 1 else 0) = j | _ \<Rightarrow> False)"
| "py_eq (VInt i) b =
     (case b of VInt j \<Rightarrow> i = j | VBool y \<Rightarrow> i = (if y then 1 else 0) | _ \<Rightarrow> False)"
| "py_eq (VStr s) b = (b = VStr s)"
| "py_eq (VList xs) b =
     (case b of
        VList ys \<Rightarrow> length xs = length ys \<and> (\<forall>i < length xs. py_eq (xs ! i) (ys ! i))
      | _ \<Rightarrow> False)"
| "py_eq (VDict d) b =
     (case b of
        VDict e \<Rightarrow>
          length d = length e \<and>
          (\<forall>k \<in> set (map fst d).
             case map_of d k of
               None \<Rightarrow> False
             | Some v \<Rightarrow> (case map_of e k of None \<Rightarrow> False | Some w \<Rightarrow> py_eq v w))
      | _ \<Rightarrow> False)"
  by pat_completeness auto
termination
  apply (relation "measure (\<lambda>(a, b). size a)")
    apply simp
   apply (auto simp: nth_size_val dest: map_of_size_val)
  done

text \<open>\<^verbatim>\<open>v in xs\<close> for a list \<^verbatim>\<open>xs\<close>.\<close>

definition py_in :: "val \<Rightarrow> val list \<Rightarrow> bool" where
  "py_in v xs = list_ex (\<lambda>x. py_eq x v) xs"

section \<open>Strings and slices\<close>

text \<open>
  \<^verbatim>\<open>s.split(sep)\<close> for a non-empty separator: the occurrences of \<^verbatim>\<open>sep\<close> are found
  from the left and do not overlap. \<open>split_from sep acc s\<close> has read the token prefix
  \<open>acc\<close> already. An empty separator raises \<^verbatim>\<open>ValueError\<close>.
\<close>

function split_from :: "string \<Rightarrow> string \<Rightarrow> string \<Rightarrow> string list" where
  "split_from sep acc [] = [acc]"
| "split_from sep acc (c # cs) =
     (if sep \<noteq> [] \<and> take (length sep) (c # cs) = sep
      then acc # split_from sep [] (drop (length sep) (c # cs))
      else split_from sep (acc @ [c]) cs)"
  by pat_completeness auto
termination
  by (relation "measure (\<lambda>(sep, acc, s). length s)") auto

definition py_split :: "string \<Rightarrow> string \<Rightarrow> exn + string list" where
  "py_split s sep = (if sep = [] then Inl ValueError else Inr (split_from sep [] s))"

text \<open>\<^verbatim>\<open>sep.join(xs)\<close>.\<close>

fun py_join :: "string \<Rightarrow> string list \<Rightarrow> string" where
  "py_join sep [] = []"
| "py_join sep [x] = x"
| "py_join sep (x # y # ys) = x @ sep @ py_join sep (y # ys)"

text \<open>
  A slice bound \<open>i\<close> of a list of length \<open>n\<close>: a negative bound counts from the end;
  both are clamped to \<open>0..n\<close>. \<^verbatim>\<open>-0\<close> is \<^verbatim>\<open>0\<close>, a bound from the front.
\<close>

definition slice_bound :: "nat \<Rightarrow> int \<Rightarrow> nat" where
  "slice_bound n i = (if i < 0 then nat (max (int n + i) 0) else min (nat i) n)"

definition slice_to :: "'a list \<Rightarrow> int \<Rightarrow> 'a list" where
  \<comment> \<open>\<^verbatim>\<open>xs[:i]\<close>\<close>
  "slice_to xs i = take (slice_bound (length xs) i) xs"

definition slice_from :: "'a list \<Rightarrow> int \<Rightarrow> 'a list" where
  \<comment> \<open>\<^verbatim>\<open>xs[i:]\<close>\<close>
  "slice_from xs i = drop (slice_bound (length xs) i) xs"

text \<open>\<^verbatim>\<open>xs.index(x)\<close>: the first position of \<open>x\<close>, \<^verbatim>\<open>ValueError\<close> if there is none.\<close>

fun py_index :: "'a list \<Rightarrow> 'a \<Rightarrow> exn + nat" where
  "py_index [] x = Inl ValueError"
| "py_index (y # ys) x =
     (if y = x then Inr 0
      else case py_index ys x of Inl e \<Rightarrow> Inl e | Inr i \<Rightarrow> Inr (Suc i))"

text \<open>\<^verbatim>\<open>min(xs)\<close>: \<^verbatim>\<open>ValueError\<close> on an empty list.\<close>

fun py_min :: "nat list \<Rightarrow> exn + nat" where
  "py_min [] = Inl ValueError"
| "py_min (x # xs) = Inr (foldl min x xs)"

section \<open>Dotted field access\<close>

text \<open>
  Modelled from the spec: \<^verbatim>\<open>RuleBasedProcessor._get_dotted_field_value\<close> is inherited
  from a base class that is not part of the sources at hand. The spec (4.1) says: split the
  path on \<^verbatim>\<open>.\<close>, descend; the result is absent if any intermediate key is missing or not
  a mapping. Absent is Python's \<^verbatim>\<open>None\<close>, which is what both callers test for.
\<close>

fun get_fields :: "val \<Rightarrow> string list \<Rightarrow> val" where
  "get_fields v [] = v"
| "get_fields v (field # fields) =
     (case v of
        VDict d \<Rightarrow> (case map_of d field of None \<Rightarrow> VNone | Some w \<Rightarrow> get_fields w fields)
      | _ \<Rightarrow> VNone)"

definition get_dotted_field_value :: "pydict \<Rightarrow> string \<Rightarrow> val" where
  "get_dotted_field_value event dotted_field =
     get_fields (VDict event) (split_from ''.'' [] dotted_field)"

section \<open>The generic resolver\<close>

subsection \<open>Objects and references\<close>

text \<open>
  A write may store in the event the very object that the value mapping holds, or bind one
  list under two keys, and a later write to that object shows through every reference to
  it. So a rule is applied on a store: lists and dicts are objects at addresses, and a
  value is a scalar or a reference to an object. An address is the position of the object
  in the store; a new object goes to the end.
\<close>

datatype pval = PNone | PBool bool | PInt int | PStr string | PRef nat

datatype obj = OList "pval list" | ODict "(string \<times> pval) list"

type_synonym heap = "obj list"

definition deref :: "heap \<Rightarrow> nat \<Rightarrow> obj option" where
  "deref h a = (if a < length h then Some (h ! a) else None)"

definition store :: "heap \<Rightarrow> nat \<Rightarrow> obj \<Rightarrow> heap" where
  "store h a ob = h[a := ob]"

definition alloc :: "heap \<Rightarrow> obj \<Rightarrow> heap \<times> nat" where
  "alloc h ob = (h @ [ob], length h)"

text \<open>\<^verbatim>\<open>bool(v)\<close>.\<close>

fun truthy :: "heap \<Rightarrow> pval \<Rightarrow> bool" where
  "truthy h PNone = False"
| "truthy h (PBool b) = b"
| "truthy h (PInt i) = (i \<noteq> 0)"
| "truthy h (PStr s) = (s \<noteq> [])"
| "truthy h (PRef a) =
     (case deref h a of Some (OList xs) \<Rightarrow> xs \<noteq> [] | Some (ODict d) \<Rightarrow> d \<noteq> [] | None \<Rightarrow> True)"

text \<open>
  The comparison behind \<^verbatim>\<open>in\<close>: identical objects are equal without a look inside;
  otherwise lists of the same length compare element by element up to the first difference
  and dicts of the same size entry by entry, with the same comparison. The first argument
  is the recursion depth that is left; at depth \<open>0\<close> the comparison raises
  \<^verbatim>\<open>RecursionError\<close>.
\<close>

fun all_equal :: "('a \<Rightarrow> 'a \<Rightarrow> exn + bool) \<Rightarrow> 'a list \<Rightarrow> 'a list \<Rightarrow> exn + bool" where
  "all_equal eq (x # xs) (y # ys) =
     (case eq x y of
        Inl e \<Rightarrow> Inl e
      | Inr False \<Rightarrow> Inr False
      | Inr True \<Rightarrow> all_equal eq xs ys)"
| "all_equal eq xs ys = Inr True"

fun entries_equal ::
  "('a \<Rightarrow> 'a \<Rightarrow> exn + bool) \<Rightarrow> (string \<times> 'a) list \<Rightarrow> (string \<times> 'a) list \<Rightarrow> exn + bool" where
  "entries_equal eq [] e = Inr True"
| "entries_equal eq ((k, v) # d) e =
     (case map_of e k of
        None \<Rightarrow> Inr False
      | Some w \<Rightarrow>
          (case eq v w of
             Inl x \<Rightarrow> Inl x
           | Inr False \<Rightarrow> Inr False
           | Inr True \<Rightarrow> entries_equal eq d e))"

primrec rich_compare_bool :: "nat \<Rightarrow> heap \<Rightarrow> pval \<Rightarrow> pval \<Rightarrow> exn + bool" where
  "rich_compare_bool 0 h a b = Inl RecursionError"
| "rich_compare_bool (Suc n) h a b =
     (if a = b then Inr True
      else
        (case (a, b) of
           (PBool x, PInt j) \<Rightarrow> Inr ((if x then 1 else 0) = j)
         | (PInt i, PBool y) \<Rightarrow> Inr (i = (if y then 1 else 0))
         | (PRef r, PRef s) \<Rightarrow>
             (case (deref h r, deref h s) of
                (Some (OList xs), Some (OList ys)) \<Rightarrow>
                  if length xs \<noteq> length ys then Inr False
                  else all_equal (rich_compare_bool n h) xs ys
              | (Some (ODict d), Some (ODict e)) \<Rightarrow>
                  if length d \<noteq> length e then Inr False
                  else entries_equal (rich_compare_bool n h) d e
              | _ \<Rightarrow> Inr False)
         | _ \<Rightarrow> Inr False))"

text \<open>\<^verbatim>\<open>v in xs\<close> for the elements \<open>xs\<close> of a list.\<close>

fun list_contains :: "nat \<Rightarrow> heap \<Rightarrow> pval list \<Rightarrow> pval \<Rightarrow> exn + bool" where
  "list_contains n h [] v = Inr False"
| "list_contains n h (x # xs) v =
     (case rich_compare_bool n h x v of
        Inl e \<Rightarrow> Inl e
      | Inr True \<Rightarrow> Inr True
      | Inr False \<Rightarrow> list_contains n h xs v)"

text \<open>
  Modelled from the spec: \<^verbatim>\<open>RuleBasedProcessor._get_dotted_field_value\<close> once more (see
  \<open>get_dotted_field_value\<close>), for an event in the store: split the path on \<^verbatim>\<open>.\<close>,
  descend; absent if any intermediate key is missing or not a mapping.
\<close>

fun get_fields_in :: "heap \<Rightarrow> pval \<Rightarrow> string list \<Rightarrow> pval" where
  "get_fields_in h v [] = v"
| "get_fields_in h v (field # fields) =
     (case v of
        PRef a \<Rightarrow>
          (case deref h a of
             Some (ODict d) \<Rightarrow>
               (case map_of d field of None \<Rightarrow> PNone | Some w \<Rightarrow> get_fields_in h w fields)
           | _ \<Rightarrow> PNone)
      | _ \<Rightarrow> PNone)"

definition get_dotted_field_value_in :: "heap \<Rightarrow> nat \<Rightarrow> string \<Rightarrow> pval" where
  "get_dotted_field_value_in h event dotted_field =
     get_fields_in h (PRef event) (split_from ''.'' [] dotted_field)"

subsection \<open>The hyperscan library\<close>

text \<open>
  The hyperscan bindings are an external library, so they are a parameter of the model: a
  record of the four entry points the processor calls. \<open>hs_compile\<close> gets the expressions,
  their ids, the number of elements and the flags, and answers a database or an error
  message; \<open>hs_scan\<close> answers the pattern ids in the order in which the match handler
  is called, or rejects its input.
\<close>

datatype hs_flag = HS_FLAG_SINGLEMATCH | HS_FLAG_CASELESS

record 'db hyperscan =
  hs_compile :: "string list \<Rightarrow> nat list \<Rightarrow> nat \<Rightarrow> hs_flag set list \<Rightarrow> string + 'db"
  hs_scan :: "'db \<Rightarrow> pval \<Rightarrow> exn + nat list"
  hs_dumpb :: "'db \<Rightarrow> string"
  hs_loadb :: "string \<Rightarrow> string + 'db"

subsection \<open>Rules, the processor and the file system\<close>

record 'v GenericResolverRule =
  field_mapping :: "(string \<times> string) list"
  resolve_list :: "(string \<times> 'v) list"
  file_name :: string
  append_to_list :: bool
  store_db_persistent :: bool

type_synonym 'v value_mapping = "(nat \<times> 'v) list"

record ('db, 'v) GenericResolver =
  name :: string
  hyperscan_databases :: "(string \<times> 'db \<times> 'v value_mapping) list"
  hyperscan_database_path :: string

text \<open>The part of the file system the processor touches: directories and binary files.\<close>

record filesystem =
  dirs :: "string list"
  files :: "(string \<times> string) list"

text \<open>
  \<^verbatim>\<open>__init__\<close>; \<open>module_dir\<close> stands for
  \<^verbatim>\<open>path.dirname(path.abspath(__file__))\<close>.
\<close>

definition GenericResolver_init ::
  "string \<Rightarrow> string \<Rightarrow> string \<Rightarrow> ('db, 'v) GenericResolver" where
  "GenericResolver_init nm hyperscan_db_path module_dir =
     \<lparr>name = nm,
      hyperscan_databases = [],
      hyperscan_database_path =
        (if hyperscan_db_path \<noteq> [] then hyperscan_db_path else module_dir @ ''/hyperscan_dbs/'')\<rparr>"

subsection \<open>Compiling, loading and saving a database\<close>

text \<open>
  The loop of \<^verbatim>\<open>_create_database\<close> over \<^verbatim>\<open>enumerate(resolve_list.keys())\<close>,
  started at index \<open>idx\<close> with the patterns and the value mapping collected so far.
\<close>

fun collect_patterns ::
  "(string \<times> 'v) list \<Rightarrow> nat \<Rightarrow> string list \<Rightarrow>
   (string \<times> nat \<times> hs_flag set) list \<Rightarrow> 'v value_mapping \<Rightarrow>
   exn + (string \<times> nat \<times> hs_flag set) list \<times> 'v value_mapping" where
  "collect_patterns rl idx [] db_patterns vm = Inr (db_patterns, vm)"
| "collect_patterns rl idx (pattern # patterns) db_patterns vm =
     (case map_of rl pattern of
        None \<Rightarrow> Inl KeyError
      | Some v \<Rightarrow>
          collect_patterns rl (Suc idx) patterns
            (db_patterns @ [(pattern, idx, {HS_FLAG_SINGLEMATCH, HS_FLAG_CASELESS})])
            (dict_set idx v vm))"

definition create_database ::
  "'db hyperscan \<Rightarrow> string \<Rightarrow> (string \<times> 'v) list \<Rightarrow> exn + 'db \<times> 'v value_mapping" where
  "create_database hs nm rl =
     (case collect_patterns rl 0 (map fst rl) [] [] of
        Inl e \<Rightarrow> Inl e
      | Inr (db_patterns, vm) \<Rightarrow>
          if db_patterns = []
          then Inl (GenericResolverError nm ''No patter to compile for hyperscan database!'')
          else
            (case hs_compile hs (map fst db_patterns) (map (fst \<circ> snd) db_patterns)
                    (length db_patterns) (map (snd \<circ> snd) db_patterns) of
               Inl msg \<Rightarrow> Inl (HyperscanError msg)
             | Inr database \<Rightarrow> Inr (database, vm)))"

text \<open>The loop of \<^verbatim>\<open>_load_database\<close> that rebuilds the value mapping.\<close>

fun load_values ::
  "(string \<times> 'v) list \<Rightarrow> nat \<Rightarrow> string list \<Rightarrow> 'v value_mapping \<Rightarrow> exn + 'v value_mapping" where
  "load_values rl idx [] vm = Inr vm"
| "load_values rl idx (pattern # patterns) vm =
     (case map_of rl pattern of
        None \<Rightarrow> Inl KeyError
      | Some v \<Rightarrow> load_values rl (Suc idx) patterns (dict_set idx v vm))"

definition db_file :: "string \<Rightarrow> string \<Rightarrow> string" where
  "db_file dir database_id = dir @ ''/'' @ database_id @ ''.db''"

definition load_database ::
  "'db hyperscan \<Rightarrow> ('db, 'v) GenericResolver \<Rightarrow> filesystem \<Rightarrow> string \<Rightarrow> (string \<times> 'v) list \<Rightarrow>
   exn + 'db \<times> 'v value_mapping" where
  "load_database hs self fs database_id rl =
     (case map_of (files fs) (db_file (hyperscan_database_path self) database_id) of
        None \<Rightarrow> Inl FileNotFoundError
      | Some data \<Rightarrow>
          (case load_values rl 0 (map fst rl) [] of
             Inl e \<Rightarrow> Inl e
           | Inr vm \<Rightarrow>
               (case hs_loadb hs data of
                  Inl msg \<Rightarrow> Inl (HyperscanError msg)
                | Inr db \<Rightarrow> Inr (db, vm))))"

text \<open>\<^verbatim>\<open>makedirs\<close> where an existing directory is not an error.\<close>

definition create_hyperscan_dbs_dir :: "filesystem \<Rightarrow> string \<Rightarrow> filesystem" where
  "create_hyperscan_dbs_dir fs path =
     (if path \<in> set (dirs fs) then fs else fs\<lparr>dirs := dirs fs @ [path]\<rparr>)"

definition save_database ::
  "'db hyperscan \<Rightarrow> ('db, 'v) GenericResolver \<Rightarrow> filesystem \<Rightarrow> 'db \<Rightarrow> string \<Rightarrow> filesystem" where
  "save_database hs self fs database database_id =
     (let fs1 = create_hyperscan_dbs_dir fs (hyperscan_database_path self);
          serialized_db = hs_dumpb hs database
      in fs1\<lparr>files :=
               dict_set (db_file (hyperscan_database_path self) database_id) serialized_db
                 (files fs1)\<rparr>)"

text \<open>
  \<^verbatim>\<open>_get_hyperscan_database\<close>: the answer together with the processor and the file
  system afterwards. An exception leaves both as they were, since every raise comes before
  the first write.
\<close>

definition get_hyperscan_database ::
  "'db hyperscan \<Rightarrow> ('db, 'v) GenericResolver \<Rightarrow> filesystem \<Rightarrow> 'v GenericResolverRule \<Rightarrow>
   exn + ('db \<times> 'v value_mapping) \<times> ('db, 'v) GenericResolver \<times> filesystem" where
  "get_hyperscan_database hs self fs rule =
     (let database_id = file_name rule; rl = resolve_list rule in
      case map_of (hyperscan_databases self) database_id of
        Some entry \<Rightarrow> Inr (entry, self, fs)
      | None \<Rightarrow>
          (case load_database hs self fs database_id rl of
             Inr entry \<Rightarrow>
               Inr (entry,
                    self\<lparr>hyperscan_databases :=
                           dict_set database_id entry (hyperscan_databases self)\<rparr>,
                    fs)
           | Inl FileNotFoundError \<Rightarrow>
               (case create_database hs (name self) rl of
                  Inl e \<Rightarrow> Inl e
                | Inr (db, vm) \<Rightarrow>
                    Inr ((db, vm),
                         self\<lparr>hyperscan_databases :=
                                dict_set database_id (db, vm) (hyperscan_databases self)\<rparr>,
                         (if store_db_persistent rule then save_database hs self fs db database_id
                          else fs)))
           | Inl e \<Rightarrow> Inl e))"

text \<open>
  A sequence of calls of \<^verbatim>\<open>_get_hyperscan_database\<close> on one processor, one per
  rule; a call that raises leaves the processor and the file system as they were.
\<close>

fun acquire_all ::
  "'db hyperscan \<Rightarrow> ('db, 'v) GenericResolver \<Rightarrow> filesystem \<Rightarrow> 'v GenericResolverRule list \<Rightarrow>
   ('db, 'v) GenericResolver \<times> filesystem" where
  "acquire_all hs self fs [] = (self, fs)"
| "acquire_all hs self fs (rule # rules) =
     (case get_hyperscan_database hs self fs rule of
        Inl e \<Rightarrow> acquire_all hs self fs rules
      | Inr (entry, self', fs') \<Rightarrow> acquire_all hs self' fs' rules)"

subsection \<open>Applying a rule\<close>

text \<open>
  \<^verbatim>\<open>pattern_id_to_dest_val_map[result[result.index(min(result))]]\<close>, the expression
  that every write evaluates; the lookup in the value mapping raises \<^verbatim>\<open>KeyError\<close> for
  an id the mapping does not have.
\<close>

definition chosen_value :: "'v value_mapping \<Rightarrow> nat list \<Rightarrow> exn + 'v" where
  "chosen_value vm result =
     (case py_min result of
        Inl e \<Rightarrow> Inl e
      | Inr m \<Rightarrow>
          (case py_index result m of
             Inl e \<Rightarrow> Inl e
           | Inr i \<Rightarrow>
               (case map_of vm (result ! i) of None \<Rightarrow> Inl KeyError | Some v \<Rightarrow> Inr v)))"

text \<open>
  The loop \<^verbatim>\<open>for idx, key in enumerate(keys)\<close> of \<^verbatim>\<open>_apply_rules\<close>, with
  \<^verbatim>\<open>dict_\<close> the dict at the address \<open>dict\<close> and the keys from \<^verbatim>\<open>idx\<close> on. It
  answers the store afterwards, the keys appended to \<^verbatim>\<open>conflicting_fields\<close> and the
  exception that ended the loop, if any. \<open>value\<close> is the outcome of evaluating the
  expression above, which happens only where the source evaluates it; \<open>limit\<close> is the
  recursion depth left for the comparison behind \<^verbatim>\<open>not in\<close>.

  A key that is missing is created: at the last position with the value (in a list when
  appending, where the source starts from \<^verbatim>\<open>dict_.get('key', [])\<close>, the entry under
  the literal name \<^verbatim>\<open>key\<close>, and appends to that very object), before it with a new
  empty dict. Then a dict under the key is entered; anything else is appended to or
  recorded as a conflict, and the loop goes on with the next key on the same dict.
\<close>

fun resolve_keys_in ::
  "nat \<Rightarrow> bool \<Rightarrow> exn + pval \<Rightarrow> string list \<Rightarrow> heap \<Rightarrow> nat \<Rightarrow> heap \<times> string list \<times> exn option" where
  "resolve_keys_in limit appending value [] h dict = (h, [], None)"
| "resolve_keys_in limit appending value (key # keys) h dict =
     (case deref h dict of
        Some (ODict d) \<Rightarrow>
          (case map_of d key of
             None \<Rightarrow>
               if keys = [] then
                 if appending then
                   (case map_of d ''key'' of
                      None \<Rightarrow>
                        (case alloc h (OList []) of
                           (h1, r) \<Rightarrow>
                             (let h2 = store h1 dict (ODict (dict_set key (PRef r) d)) in
                              case value of
                                Inl e \<Rightarrow> (h2, [], Some e)
                              | Inr v \<Rightarrow> (store h2 r (OList [v]), [], None)))
                    | Some got \<Rightarrow>
                        (let h1 = store h dict (ODict (dict_set key got d)) in
                         case got of
                           PRef r \<Rightarrow>
                             (case deref h1 r of
                                Some (OList xs) \<Rightarrow>
                                  (case value of
                                     Inl e \<Rightarrow> (h1, [], Some e)
                                   | Inr v \<Rightarrow> (store h1 r (OList (xs @ [v])), [], None))
                              | _ \<Rightarrow> (h1, [], Some AttributeError))
                         | _ \<Rightarrow> (h1, [], Some AttributeError)))
                 else
                   (case value of
                      Inl e \<Rightarrow> (h, [], Some e)
                    | Inr v \<Rightarrow> (store h dict (ODict (dict_set key v d)), [], None))
               else
                 (case alloc h (ODict []) of
                    (h1, r) \<Rightarrow>
                      resolve_keys_in limit appending value keys
                        (store h1 dict (ODict (dict_set key (PRef r) d))) r)
           | Some (PRef r) \<Rightarrow>
               (case deref h r of
                  Some (ODict sub) \<Rightarrow> resolve_keys_in limit appending value keys h r
                | Some (OList xs) \<Rightarrow>
                    if appending then
                      (case value of
                         Inl e \<Rightarrow> (h, [], Some e)
                       | Inr v \<Rightarrow>
                           (case list_contains limit h xs v of
                              Inl e \<Rightarrow> (h, [], Some e)
                            | Inr True \<Rightarrow> resolve_keys_in limit appending value keys h dict
                            | Inr False \<Rightarrow>
                                resolve_keys_in limit appending value keys
                                  (store h r (OList (xs @ [v]))) dict))
                    else
                      (case resolve_keys_in limit appending value keys h dict of
                         (h', conflicts, err) \<Rightarrow> (h', key # conflicts, err))
                | None \<Rightarrow>
                    (case resolve_keys_in limit appending value keys h dict of
                       (h', conflicts, err) \<Rightarrow> (h', key # conflicts, err)))
           | Some _ \<Rightarrow>
               (case resolve_keys_in limit appending value keys h dict of
                  (h', conflicts, err) \<Rightarrow> (h', key # conflicts, err)))
      | _ \<Rightarrow> (h, [], Some TypeError))"

text \<open>
  The loop over \<^verbatim>\<open>rule.field_mapping.items()\<close> on the event at the address
  \<open>event\<close>: the store afterwards, the conflicting fields collected, and the exception
  that ended the loop, if any.
\<close>

fun resolve_mappings ::
  "nat \<Rightarrow> 'db hyperscan \<Rightarrow> 'db \<Rightarrow> pval value_mapping \<Rightarrow> bool \<Rightarrow> (string \<times> string) list \<Rightarrow>
   heap \<Rightarrow> nat \<Rightarrow> heap \<times> string list \<times> exn option" where
  "resolve_mappings limit hs db vm appending [] h event = (h, [], None)"
| "resolve_mappings limit hs db vm appending ((resolve_source, resolve_target) # fm) h event =
     (let keys = split_from ''.'' [] resolve_target;
          src_val = get_dotted_field_value_in h event resolve_source
      in if truthy h src_val then
           (case hs_scan hs db src_val of
              Inl e \<Rightarrow> (h, [], Some e)
            | Inr result \<Rightarrow>
                if result \<noteq> [] then
                  (case resolve_keys_in limit appending (chosen_value vm result) keys h event of
                     (h1, conflicts, Some e) \<Rightarrow> (h1, conflicts, Some e)
                   | (h1, conflicts, None) \<Rightarrow>
                       (case resolve_mappings limit hs db vm appending fm h1 event of
                          (h2, conflicts2, err) \<Rightarrow> (h2, conflicts @ conflicts2, err)))
                else resolve_mappings limit hs db vm appending fm h event)
         else resolve_mappings limit hs db vm appending fm h event)"

text \<open>
  \<^verbatim>\<open>_apply_rules\<close>: the exception raised, if any, with the store, the processor and
  the file system afterwards. The store keeps what was written before an exception. The
  values of the rule's \<^verbatim>\<open>resolve_list\<close>, and so of the cached value mapping, are
  values over the same store.
\<close>

definition GenericResolver_apply_rules ::
  "nat \<Rightarrow> 'db hyperscan \<Rightarrow> ('db, pval) GenericResolver \<Rightarrow> filesystem \<Rightarrow> heap \<Rightarrow> nat \<Rightarrow>
   pval GenericResolverRule \<Rightarrow> exn option \<times> heap \<times> ('db, pval) GenericResolver \<times> filesystem" where
  "GenericResolver_apply_rules limit hs self fs h event rule =
     (case get_hyperscan_database hs self fs rule of
        Inl e \<Rightarrow> (Some e, h, self, fs)
      | Inr ((hyperscan_db, pattern_id_to_dest_val_map), self', fs') \<Rightarrow>
          (case resolve_mappings limit hs hyperscan_db pattern_id_to_dest_val_map
                  (append_to_list rule) (field_mapping rule) h event of
             (h', conflicting_fields, Some e) \<Rightarrow> (Some e, h', self', fs')
           | (h', conflicting_fields, None) \<Rightarrow>
               if conflicting_fields \<noteq> []
               then (Some (DuplicationError (name self) conflicting_fields), h', self', fs')
               else (None, h', self', fs')))"

subsection \<open>What a write finds and what it keeps\<close>

text \<open>
  A value under a key of the target path is a conflict when it is neither a dict nor, when
  appending, a list.
\<close>

definition is_conflict :: "bool \<Rightarrow> heap \<Rightarrow> pval \<Rightarrow> bool" where
  "is_conflict appending h x =
     (case x of
        PRef r \<Rightarrow>
          (case deref h r of
             Some (ODict sub) \<Rightarrow> False
           | Some (OList xs) \<Rightarrow> \<not> appending
           | None \<Rightarrow> True)
      | _ \<Rightarrow> True)"

text \<open>
  The conflicting keys of a target path, read off the store without writing: walk the keys
  from the dict at \<open>dict\<close>, enter the dict under a key, stay on the same dict at a
  conflict or a list, and stop at the first key that is missing, since everything below it
  will be new.
\<close>

fun conflict_keys :: "bool \<Rightarrow> string list \<Rightarrow> heap \<Rightarrow> nat \<Rightarrow> string list" where
  "conflict_keys appending [] h dict = []"
| "conflict_keys appending (key # keys) h dict =
     (case deref h dict of
        Some (ODict d) \<Rightarrow>
          (case map_of d key of
             None \<Rightarrow> []
           | Some x \<Rightarrow>
               if is_conflict appending h x then key # conflict_keys appending keys h dict
               else
                 (case x of
                    PRef r \<Rightarrow>
                      (case deref h r of
                         Some (ODict sub) \<Rightarrow> conflict_keys appending keys h r
                       | _ \<Rightarrow> conflict_keys appending keys h dict)
                  | _ \<Rightarrow> []))
      | _ \<Rightarrow> [])"

text \<open>
  One object extends another: a dict has every key of the other with the same value, a
  list begins with the elements of the other. A store grows into another when it has every
  address of the first and each object there extends the object of the first.
\<close>

fun obj_extends :: "obj \<Rightarrow> obj \<Rightarrow> bool" where
  "obj_extends (ODict d) (ODict d') = list_all (\<lambda>k. map_of d' k = map_of d k) (map fst d)"
| "obj_extends (OList xs) (OList ys) = (take (length xs) ys = xs)"
| "obj_extends ob ob' = False"

definition grows :: "heap \<Rightarrow> heap \<Rightarrow> bool" where
  "grows h h' = (length h \<le> length h' \<and> list_all2 obj_extends h (take (length h) h'))"

subsection \<open>One write on a document taken by value\<close>

text \<open>
  The same loop over the keys for one write on a document that shares no object with
  anything else, as an event decoded from JSON is: the document is a value, and the loop
  answers the dict that \<^verbatim>\<open>dict_\<close> refers to as it is afterwards. Where the source
  binds the list under \<^verbatim>\<open>key\<close> to the new key as well, both entries show the
  appended list.
\<close>

fun resolve_keys ::
  "bool \<Rightarrow> exn + val \<Rightarrow> string list \<Rightarrow> pydict \<Rightarrow> pydict \<times> string list \<times> exn option" where
  "resolve_keys appending value [] dict = (dict, [], None)"
| "resolve_keys appending value (key # keys) dict =
     (case map_of dict key of
        None \<Rightarrow>
          if keys = [] then
            if appending then
              (let got = (case map_of dict ''key'' of None \<Rightarrow> VList [] | Some x \<Rightarrow> x);
                   dict1 = dict_set key got dict
               in case got of
                    VList xs \<Rightarrow>
                      (case value of
                         Inl e \<Rightarrow> (dict1, [], Some e)
                       | Inr v \<Rightarrow>
                           ((case map_of dict ''key'' of
                               None \<Rightarrow> dict_set key (VList (xs @ [v])) dict
                             | Some _ \<Rightarrow>
                                 dict_set key (VList (xs @ [v]))
                                   (dict_set ''key'' (VList (xs @ [v])) dict)),
                            [], None))
                  | _ \<Rightarrow> (dict1, [], Some AttributeError))
            else
              (case value of
                 Inl e \<Rightarrow> (dict, [], Some e)
               | Inr v \<Rightarrow> (dict_set key v dict, [], None))
          else
            (case resolve_keys appending value keys [] of
               (sub, conflicts, err) \<Rightarrow> (dict_set key (VDict sub) dict, conflicts, err))
      | Some (VDict sub) \<Rightarrow>
          (case resolve_keys appending value keys sub of
             (sub', conflicts, err) \<Rightarrow> (dict_set key (VDict sub') dict, conflicts, err))
      | Some (VList xs) \<Rightarrow>
          if appending then
            (case value of
               Inl e \<Rightarrow> (dict, [], Some e)
             | Inr v \<Rightarrow>
                 resolve_keys appending value keys
                   (if py_in v xs then dict else dict_set key (VList (xs @ [v])) dict))
          else
            (case resolve_keys appending value keys dict of
               (dict', conflicts, err) \<Rightarrow> (dict', key # conflicts, err))
      | Some _ \<Rightarrow>
          (case resolve_keys appending value keys dict of
             (dict', conflicts, err) \<Rightarrow> (dict', key # conflicts, err)))"

section \<open>The template replacer\<close>

record pattern =
  pat_target_field :: string
  pat_fields :: "string list"
  pat_delimiter :: string
  pat_allowed_delimiter_field :: string

record TemplateReplacer =
  tr_name :: string
  tr_target_field :: string
  tr_target_field_split :: "string list"
  tr_fields :: "string list"
  tr_mapping :: val

subsection \<open>Building the index\<close>

text \<open>
  The recombination of one template key in \<^verbatim>\<open>__init__\<close>: split, cut into left,
  middle and right with slices, join the middle with \<^verbatim>\<open>"-"\<close>.
\<close>

definition recombine :: "string list \<Rightarrow> nat \<Rightarrow> string list \<Rightarrow> string list" where
  "recombine flds allow_delimiter_index split_key =
     (let left = slice_to split_key (int allow_delimiter_index);
          middle_and_right = slice_from split_key (int allow_delimiter_index);
          middle = slice_to middle_and_right
                     (- (int (length flds) - int allow_delimiter_index - 1));
          right = slice_from middle_and_right
                     (- (int (length flds) - int allow_delimiter_index - 1))
      in left @ [py_join ''-'' middle] @ right)"

text \<open>
  The loop \<^verbatim>\<open>for idx, recombined_key in enumerate(recombined_keys)\<close> on the object
  that \<^verbatim>\<open>_dict\<close> refers to, from position \<open>idx\<close> on; \<open>n\<close> is
  \<^verbatim>\<open>len(self._fields)\<close>. A node that is no dict has neither \<^verbatim>\<open>get\<close> nor item
  assignment with a string.
\<close>

fun insert_keys :: "nat \<Rightarrow> nat \<Rightarrow> string list \<Rightarrow> val \<Rightarrow> val \<Rightarrow> exn + val" where
  "insert_keys n idx [] v node = Inr node"
| "insert_keys n idx (recombined_key # keys) v node =
     (if int idx < int n - 1 then
        (case node of
           VDict d \<Rightarrow>
             (let child = (case map_of d recombined_key of
                             None \<Rightarrow> VDict []
                           | Some c \<Rightarrow> if py_truthy c then c else VDict [])
              in case insert_keys n (Suc idx) keys v child of
                   Inl e \<Rightarrow> Inl e
                 | Inr child' \<Rightarrow> Inr (VDict (dict_set recombined_key child' d)))
         | _ \<Rightarrow> Inl AttributeError)
      else
        (case node of
           VDict d \<Rightarrow> insert_keys n (Suc idx) keys v (VDict (dict_set recombined_key v d))
         | _ \<Rightarrow> Inl TypeError))"

text \<open>One round of the loop over \<^verbatim>\<open>template.items()\<close>.\<close>

definition add_entry ::
  "string \<Rightarrow> string \<Rightarrow> string list \<Rightarrow> string \<Rightarrow> nat \<Rightarrow> string \<times> val \<Rightarrow> val \<Rightarrow> exn + val" where
  "add_entry nm template_path flds delim allow_delimiter_index entry mapping =
     (case py_split (fst entry) delim of
        Inl e \<Rightarrow> Inl e
      | Inr split_key \<Rightarrow>
          (let recombined_keys = recombine flds allow_delimiter_index split_key in
           if length recombined_keys \<noteq> length flds
           then Inl (TemplateReplacerError nm (NotEnoughDelimiters template_path flds))
           else
             (case insert_keys (length flds) 0 recombined_keys (snd entry) mapping of
                Inl ValueError \<Rightarrow> Inl (TemplateReplacerError nm TemplateInvalid)
              | Inl e \<Rightarrow> Inl e
              | Inr mapping' \<Rightarrow> Inr mapping')))"

fun add_entries ::
  "string \<Rightarrow> string \<Rightarrow> string list \<Rightarrow> string \<Rightarrow> nat \<Rightarrow> (string \<times> val) list \<Rightarrow> val \<Rightarrow>
   exn + val" where
  "add_entries nm template_path flds delim a [] mapping = Inr mapping"
| "add_entries nm template_path flds delim a (entry # template) mapping =
     (case add_entry nm template_path flds delim a entry mapping of
        Inl e \<Rightarrow> Inl e
      | Inr mapping' \<Rightarrow> add_entries nm template_path flds delim a template mapping')"

text \<open>
  \<^verbatim>\<open>__init__\<close>; \<open>template\<close> is what \<^verbatim>\<open>yaml.load\<close> read from
  \<open>template_path\<close>, a mapping from composite keys to values in the order of the file.
\<close>

definition TemplateReplacer_init ::
  "string \<Rightarrow> string \<Rightarrow> pattern \<Rightarrow> (string \<times> val) list \<Rightarrow> exn + TemplateReplacer" where
  "TemplateReplacer_init nm template_path pat template =
     (case py_index (pat_fields pat) (pat_allowed_delimiter_field pat) of
        Inl e \<Rightarrow> Inl e
      | Inr allow_delimiter_index \<Rightarrow>
          (case add_entries nm template_path (pat_fields pat) (pat_delimiter pat) allow_delimiter_index
                  template (VDict []) of
             Inl e \<Rightarrow> Inl e
           | Inr mapping \<Rightarrow>
               Inr \<lparr>tr_name = nm,
                    tr_target_field = pat_target_field pat,
                    tr_target_field_split = split_from ''.'' [] (pat_target_field pat),
                    tr_fields = pat_fields pat,
                    tr_mapping = mapping\<rparr>))"

subsection \<open>Applying the template\<close>

text \<open>\<^verbatim>\<open>needle in hay\<close> for two strings.\<close>

fun is_substring :: "string \<Rightarrow> string \<Rightarrow> bool" where
  "is_substring needle [] = (needle = [])"
| "is_substring needle (c # cs) =
     (take (length needle) (c # cs) = needle \<or> is_substring needle cs)"

text \<open>
  \<^verbatim>\<open>_field_exists\<close>, from the loop over the split path on. \<^verbatim>\<open>field in dict_\<close>
  is a key test on a dict, a substring test on a string, a membership test on a list, and
  a \<^verbatim>\<open>TypeError\<close> on \<^verbatim>\<open>None\<close>, a bool or an int; \<^verbatim>\<open>dict_[field]\<close> with a
  string \<^verbatim>\<open>field\<close> is a \<^verbatim>\<open>TypeError\<close> on a string or a list.
\<close>

fun fields_exist :: "val \<Rightarrow> string list \<Rightarrow> exn + bool" where
  "fields_exist dict [] = Inr True"
| "fields_exist dict (field # flds) =
     (case dict of
        VDict d \<Rightarrow> (case map_of d field of None \<Rightarrow> Inr False | Some v \<Rightarrow> fields_exist v flds)
      | VStr s \<Rightarrow> if is_substring field s then Inl TypeError else Inr False
      | VList xs \<Rightarrow> if py_in (VStr field) xs then Inl TypeError else Inr False
      | _ \<Rightarrow> Inl TypeError)"

definition field_exists :: "pydict \<Rightarrow> string \<Rightarrow> exn + bool" where
  "field_exists event dotted_field =
     fields_exist (VDict event) (split_from ''.'' [] dotted_field)"

text \<open>
  The loop over \<^verbatim>\<open>self._fields\<close> in \<^verbatim>\<open>_apply_rules\<close>: the object \<^verbatim>\<open>_dict\<close>
  ends at, with \<^verbatim>\<open>None\<close> where the source returns early. \<open>str\<close> is Python's
  \<^verbatim>\<open>str\<close>.
\<close>

fun lookup_fields :: "(val \<Rightarrow> string) \<Rightarrow> pydict \<Rightarrow> string list \<Rightarrow> val \<Rightarrow> exn + val" where
  "lookup_fields str event [] dict = Inr dict"
| "lookup_fields str event (field # flds) dict =
     (let dotted_field_value = get_dotted_field_value event field in
      if dotted_field_value = VNone then Inr VNone
      else
        (case dict of
           VDict d \<Rightarrow>
             (case map_of d (str dotted_field_value) of
                None \<Rightarrow> Inr VNone
              | Some VNone \<Rightarrow> Inr VNone
              | Some dict' \<Rightarrow> lookup_fields str event flds dict')
         | _ \<Rightarrow> Inl AttributeError))"

text \<open>
  The write at the end of \<^verbatim>\<open>_apply_rules\<close>: walk \<^verbatim>\<open>_event = _event[subfield]\<close>
  along all but the last component, then assign the last.
\<close>

fun write_subfields :: "val \<Rightarrow> string list \<Rightarrow> val \<Rightarrow> exn + val" where
  "write_subfields ev [] v = Inr ev"
| "write_subfields ev [subfield] v =
     (case ev of VDict d \<Rightarrow> Inr (VDict (dict_set subfield v d)) | _ \<Rightarrow> Inl TypeError)"
| "write_subfields ev (subfield # subfields) v =
     (case ev of
        VDict d \<Rightarrow>
          (case map_of d subfield of
             None \<Rightarrow> Inl KeyError
           | Some child \<Rightarrow>
               (case write_subfields child subfields v of
                  Inl e \<Rightarrow> Inl e
                | Inr child' \<Rightarrow> Inr (VDict (dict_set subfield child' d))))
      | _ \<Rightarrow> Inl TypeError)"

text \<open>
  \<^verbatim>\<open>_apply_rules\<close>: the event afterwards, or the exception raised; every raise comes
  before the only write.
\<close>

definition TemplateReplacer_apply_rules ::
  "(val \<Rightarrow> string) \<Rightarrow> TemplateReplacer \<Rightarrow> pydict \<Rightarrow> exn + pydict" where
  "TemplateReplacer_apply_rules str self event =
     (case lookup_fields str event (tr_fields self) (tr_mapping self) of
        Inl e \<Rightarrow> Inl e
      | Inr VNone \<Rightarrow> Inr event
      | Inr payload \<Rightarrow>
          (case field_exists event (tr_target_field self) of
             Inl e \<Rightarrow> Inl e
           | Inr False \<Rightarrow> Inr event
           | Inr True \<Rightarrow>
               (case write_subfields (VDict event) (tr_target_field_split self) payload of
                  Inl e \<Rightarrow> Inl e
                | Inr (VDict event') \<Rightarrow> Inr event'
                | Inr _ \<Rightarrow> Inr event)))"

section \<open>The shape of the template index\<close>

text \<open>
  Two notions for stating what \<^verbatim>\<open>__init__\<close> builds. \<open>get_keys\<close> follows a
  list of keys through nested dicts. \<open>trie_depth n\<close> holds of an index all of whose
  entries lie exactly \<open>n\<close> levels down: above the last level every child is a dict with
  at least one entry.
\<close>

fun get_keys :: "val \<Rightarrow> string list \<Rightarrow> val option" where
  "get_keys node [] = Some node"
| "get_keys node (k # ks) =
     (case node of
        VDict d \<Rightarrow> (case map_of d k of None \<Rightarrow> None | Some child \<Rightarrow> get_keys child ks)
      | _ \<Rightarrow> None)"

fun trie_depth :: "nat \<Rightarrow> val \<Rightarrow> bool" where
  "trie_depth 0 node = True"
| "trie_depth (Suc n) node =
     (case node of
        VDict d \<Rightarrow> list_all (\<lambda>(k, child). trie_depth n child \<and> (0 < n \<longrightarrow> py_truthy child)) d
      | _ \<Rightarrow> False)"

section \<open>Stand-ins for the examples\<close>

text \<open>
  A library stub: compiling and loading always succeed, and every scan of a string reports
  the given ids in the given order.
\<close>

definition stub_hs :: "nat list \<Rightarrow> unit hyperscan" where
  "stub_hs ids =
     \<lparr>hs_compile = (\<lambda>expressions ids' elements flags. Inr ()),
      hs_scan = (\<lambda>db v. case v of PStr s \<Rightarrow> Inr ids | _ \<Rightarrow> Inl TypeError),
      hs_dumpb = (\<lambda>db. ''blob''),
      hs_loadb = (\<lambda>data. Inr ())\<rparr>"

text \<open>
  A library stub that refuses the expression \<^verbatim>\<open>(\<close>, as a regular expression
  compiler does with an unclosed group, and accepts everything else.
\<close>

definition strict_hs :: "unit hyperscan" where
  "strict_hs =
     \<lparr>hs_compile = (\<lambda>expressions ids' elements flags.
                      if ''('' \<in> set expressions then Inl ''Missing close parenthesis''
                      else Inr ()),
      hs_scan = (\<lambda>db v. Inr []),
      hs_dumpb = (\<lambda>db. ''blob''),
      hs_loadb = (\<lambda>data. Inr ())\<rparr>"

text \<open>
  A library stub whose scan looks the string up in a table of ids, and reports nothing for
  a string the table does not have.
\<close>

definition table_hs :: "(string \<times> nat list) list \<Rightarrow> unit hyperscan" where
  "table_hs table =
     \<lparr>hs_compile = (\<lambda>expressions ids' elements flags. Inr ()),
      hs_scan = (\<lambda>db v. case v of
                           PStr s \<Rightarrow> Inr (case map_of table s of None \<Rightarrow> [] | Some ids \<Rightarrow> ids)
                         | _ \<Rightarrow> Inl TypeError),
      hs_dumpb = (\<lambda>db. ''blob''),
      hs_loadb = (\<lambda>data. Inr ())\<rparr>"

text \<open>
  Python's \<^verbatim>\<open>str\<close> on \<^verbatim>\<open>None\<close>, bools, ints and strings. The text of a
  list or a dict is not modelled; the examples have no such field value, and the general
  statements take \<^verbatim>\<open>str\<close> as a parameter.
\<close>

function nat_str :: "nat \<Rightarrow> string" where
  "nat_str n =
     (if n < 10 then [char_of (48 + n)] else nat_str (n div 10) @ [char_of (48 + n mod 10)])"
  by pat_completeness auto
termination
  by (relation "measure id") auto

definition str_scalar :: "val \<Rightarrow> string" where
  "str_scalar v =
     (case v of
        VNone \<Rightarrow> ''None''
      | VBool b \<Rightarrow> (if b then ''True'' else ''False'')
      | VInt i \<Rightarrow> (if i < 0 then ''-'' @ nat_str (nat (- i)) else nat_str (nat i))
      | VStr s \<Rightarrow> s
      | _ \<Rightarrow> [])"

section \<open>Auxiliary facts\<close>

lemma map_of_dict_set: "map_of (dict_set k v d) k' = (if k' = k then Some v else map_of d k')"
  by (induction d) auto

lemma foldl_min_Min: "foldl min x xs = Min (set ((x :: nat) # xs))"
proof -
  have "(\<lambda>a b. min b a) = (min :: nat \<Rightarrow> nat \<Rightarrow> nat)"
    by (intro ext) (rule min.commute)
  then show ?thesis
    by (simp only: Min.set_eq_fold foldl_conv_fold)
qed

lemma py_min_Min: "result \<noteq> [] \<Longrightarrow> py_min result = Inr (Min (set result))"
  by (cases result) (simp_all add: foldl_min_Min)

lemma py_index_mem: "x \<in> set xs \<Longrightarrow> \<exists>i. py_index xs x = Inr i \<and> i < length xs \<and> xs ! i = x"
proof (induction xs)
  case Nil
  then show ?case by simp
next
  case (Cons y ys)
  show ?case
  proof (cases "y = x")
    case True
    then show ?thesis by simp
  next
    case False
    with Cons obtain i where "py_index ys x = Inr i" "i < length ys" "ys ! i = x"
      by auto
    with False show ?thesis by simp
  qed
qed


lemma chosen_value_Min:
  assumes "result \<noteq> []"
  shows "chosen_value vm result =
           (case map_of vm (Min (set result)) of None \<Rightarrow> Inl KeyError | Some v \<Rightarrow> Inr v)"
proof -
  define m where "m = Min (set result)"
  have "m \<in> set result"
    unfolding m_def using assms by (simp add: Min_in)
  then have "\<exists>i. py_index result m = Inr i \<and> i < length result \<and> result ! i = m"
    by (rule py_index_mem)
  then obtain i where i: "py_index result m = Inr i" "result ! i = m"
    by (elim exE conjE)
  have "py_min result = Inr m"
    unfolding m_def using assms by (rule py_min_Min)
  then have "chosen_value vm result =
               (case map_of vm m of None \<Rightarrow> Inl KeyError | Some v \<Rightarrow> Inr v)"
    unfolding chosen_value_def by (simp only: i sum.case)
  then show ?thesis unfolding m_def .
qed

lemma resolve_keys_dict:
  "map_of d key = Some (VDict sub) \<Longrightarrow>
   resolve_keys appending value (key # keys) d =
     (case resolve_keys appending value keys sub of
        (sub', conflicts, err) \<Rightarrow> (dict_set key (VDict sub') d, conflicts, err))"
  by simp

lemma resolve_keys_list:
  "map_of d key = Some (VList xs) \<Longrightarrow>
   resolve_keys True (Inr v) (key # keys) d =
     resolve_keys True (Inr v) keys
       (if py_in v xs then d else dict_set key (VList (xs @ [v])) d)"
  by simp

declare resolve_keys.simps(2) [simp del]

lemma split_from_not_Nil: "split_from sep acc s \<noteq> []"
  by (induction sep acc s rule: split_from.induct) simp_all

section \<open>Facts about the store\<close>

lemma deref_less: "deref h a = Some ob \<Longrightarrow> a < length h"
  by (simp add: deref_def split: if_splits)

lemma deref_store: "deref (store h a ob) b = (if b = a \<and> a < length h then Some ob else deref h b)"
  by (simp add: deref_def store_def)

lemma deref_append: "deref (h @ [ob]) b = (if b = length h then Some ob else deref h b)"
  by (simp add: deref_def nth_append)

lemma length_store: "length (store h a ob) = length h"
  by (simp add: store_def)

lemma resolve_keys_in_no_dict:
  "\<forall>d. deref h dict \<noteq> Some (ODict d) \<Longrightarrow>
   resolve_keys_in limit appending value (key # keys) h dict = (h, [], Some TypeError)"
  by (simp split: option.splits obj.splits)

lemma resolve_keys_in_missing_last_overwrite:
  "deref h dict = Some (ODict d) \<Longrightarrow> map_of d key = None \<Longrightarrow>
   resolve_keys_in limit False value [key] h dict =
     (case value of
        Inl e \<Rightarrow> (h, [], Some e)
      | Inr v \<Rightarrow> (store h dict (ODict (dict_set key v d)), [], None))"
  by simp

lemma resolve_keys_in_missing_last_append:
  "deref h dict = Some (ODict d) \<Longrightarrow> map_of d key = None \<Longrightarrow> map_of d ''key'' = None \<Longrightarrow>
   resolve_keys_in limit True value [key] h dict =
     (case value of
        Inl e \<Rightarrow>
          (store (h @ [OList []]) dict (ODict (dict_set key (PRef (length h)) d)), [], Some e)
      | Inr v \<Rightarrow>
          (store (store (h @ [OList []]) dict (ODict (dict_set key (PRef (length h)) d)))
             (length h) (OList [v]), [], None))"
  by (simp add: alloc_def Let_def)

lemma resolve_keys_in_missing_last_append_key:
  "deref h dict = Some (ODict d) \<Longrightarrow> map_of d key = None \<Longrightarrow> map_of d ''key'' = Some got \<Longrightarrow>
   resolve_keys_in limit True value [key] h dict =
     (case got of
        PRef r \<Rightarrow>
          (case deref (store h dict (ODict (dict_set key got d))) r of
             Some (OList xs) \<Rightarrow>
               (case value of
                  Inl e \<Rightarrow> (store h dict (ODict (dict_set key got d)), [], Some e)
                | Inr v \<Rightarrow>
                    (store (store h dict (ODict (dict_set key got d))) r (OList (xs @ [v])),
                     [], None))
           | _ \<Rightarrow> (store h dict (ODict (dict_set key got d)), [], Some AttributeError))
      | _ \<Rightarrow> (store h dict (ODict (dict_set key got d)), [], Some AttributeError))"
  by (simp add: Let_def)

lemma resolve_keys_in_missing_inner:
  "deref h dict = Some (ODict d) \<Longrightarrow> map_of d key = None \<Longrightarrow> keys \<noteq> [] \<Longrightarrow>
   resolve_keys_in limit appending value (key # keys) h dict =
     resolve_keys_in limit appending value keys
       (store (h @ [ODict []]) dict (ODict (dict_set key (PRef (length h)) d))) (length h)"
  by (simp add: alloc_def)

lemma resolve_keys_in_dict:
  "deref h dict = Some (ODict d) \<Longrightarrow> map_of d key = Some (PRef r) \<Longrightarrow>
   deref h r = Some (ODict sub) \<Longrightarrow>
   resolve_keys_in limit appending value (key # keys) h dict =
     resolve_keys_in limit appending value keys h r"
  by simp

lemma resolve_keys_in_list:
  "deref h dict = Some (ODict d) \<Longrightarrow> map_of d key = Some (PRef r) \<Longrightarrow>
   deref h r = Some (OList xs) \<Longrightarrow>
   resolve_keys_in limit True value (key # keys) h dict =
     (case value of
        Inl e \<Rightarrow> (h, [], Some e)
      | Inr v \<Rightarrow>
          (case list_contains limit h xs v of
             Inl e \<Rightarrow> (h, [], Some e)
           | Inr True \<Rightarrow> resolve_keys_in limit True value keys h dict
           | Inr False \<Rightarrow>
               resolve_keys_in limit True value keys (store h r (OList (xs @ [v]))) dict))"
  by simp

text \<open>
  When a key of the target path holds a conflict in the store: anything but a dict and, when
  appending, a list.
\<close>

lemma resolve_keys_in_conflict:
  "deref h dict = Some (ODict d) \<Longrightarrow> map_of d key = Some x \<Longrightarrow> is_conflict appending h x \<Longrightarrow>
   resolve_keys_in limit appending value (key # keys) h dict =
     (case resolve_keys_in limit appending value keys h dict of
        (h', conflicts, err) \<Rightarrow> (h', key # conflicts, err))"
  by (cases x) (simp_all add: is_conflict_def split: option.splits obj.splits)

declare resolve_keys_in.simps(2) [simp del]

lemma resolve_keys_in_induct [case_names Nil NoDict OverwriteError Overwrite AppendNewError
    AppendNew AppendKeyNoList AppendKeyError AppendKey MissingInner Enter ListError
    CompareError ListPresent ListAppend Conflict]:
  fixes P :: "string list \<Rightarrow> heap \<Rightarrow> nat \<Rightarrow> heap \<times> string list \<times> exn option \<Rightarrow> bool"
  assumes Nil: "\<And>h dict. P [] h dict (h, [], None)"
    and NoDict: "\<And>key keys h dict. \<forall>d. deref h dict \<noteq> Some (ODict d) \<Longrightarrow>
           P (key # keys) h dict (h, [], Some TypeError)"
    and OverwriteError: "\<And>key h dict d e. deref h dict = Some (ODict d) \<Longrightarrow>
           map_of d key = None \<Longrightarrow> \<not> appending \<Longrightarrow> value = Inl e \<Longrightarrow>
           P [key] h dict (h, [], Some e)"
    and Overwrite: "\<And>key h dict d v. deref h dict = Some (ODict d) \<Longrightarrow>
           map_of d key = None \<Longrightarrow> \<not> appending \<Longrightarrow> value = Inr v \<Longrightarrow>
           P [key] h dict (store h dict (ODict (dict_set key v d)), [], None)"
    and AppendNewError: "\<And>key h dict d e. deref h dict = Some (ODict d) \<Longrightarrow>
           map_of d key = None \<Longrightarrow> appending \<Longrightarrow> map_of d ''key'' = None \<Longrightarrow>
           value = Inl e \<Longrightarrow>
           P [key] h dict
             (store (h @ [OList []]) dict (ODict (dict_set key (PRef (length h)) d)), [], Some e)"
    and AppendNew: "\<And>key h dict d v. deref h dict = Some (ODict d) \<Longrightarrow>
           map_of d key = None \<Longrightarrow> appending \<Longrightarrow> map_of d ''key'' = None \<Longrightarrow>
           value = Inr v \<Longrightarrow>
           P [key] h dict
             (store (store (h @ [OList []]) dict (ODict (dict_set key (PRef (length h)) d)))
                (length h) (OList [v]), [], None)"
    and AppendKeyNoList: "\<And>key h dict d got. deref h dict = Some (ODict d) \<Longrightarrow>
           map_of d key = None \<Longrightarrow> appending \<Longrightarrow> map_of d ''key'' = Some got \<Longrightarrow>
           \<forall>r xs. got = PRef r \<longrightarrow> deref h r \<noteq> Some (OList xs) \<Longrightarrow>
           P [key] h dict (store h dict (ODict (dict_set key got d)), [], Some AttributeError)"
    and AppendKeyError: "\<And>key h dict d r xs e. deref h dict = Some (ODict d) \<Longrightarrow>
           map_of d key = None \<Longrightarrow> appending \<Longrightarrow> map_of d ''key'' = Some (PRef r) \<Longrightarrow>
           deref h r = Some (OList xs) \<Longrightarrow> value = Inl e \<Longrightarrow>
           P [key] h dict (store h dict (ODict (dict_set key (PRef r) d)), [], Some e)"
    and AppendKey: "\<And>key h dict d r xs v. deref h dict = Some (ODict d) \<Longrightarrow>
           map_of d key = None \<Longrightarrow> appending \<Longrightarrow> map_of d ''key'' = Some (PRef r) \<Longrightarrow>
           deref h r = Some (OList xs) \<Longrightarrow> value = Inr v \<Longrightarrow>
           P [key] h dict
             (store (store h dict (ODict (dict_set key (PRef r) d))) r (OList (xs @ [v])),
              [], None)"
    and MissingInner: "\<And>key keys h dict d res. deref h dict = Some (ODict d) \<Longrightarrow>
           map_of d key = None \<Longrightarrow> keys \<noteq> [] \<Longrightarrow>
           P keys (store (h @ [ODict []]) dict (ODict (dict_set key (PRef (length h)) d)))
             (length h) res \<Longrightarrow>
           res = resolve_keys_in limit appending value keys
                   (store (h @ [ODict []]) dict (ODict (dict_set key (PRef (length h)) d)))
                   (length h) \<Longrightarrow>
           P (key # keys) h dict res"
    and Enter: "\<And>key keys h dict d r sub res. deref h dict = Some (ODict d) \<Longrightarrow>
           map_of d key = Some (PRef r) \<Longrightarrow> deref h r = Some (ODict sub) \<Longrightarrow>
           P keys h r res \<Longrightarrow> res = resolve_keys_in limit appending value keys h r \<Longrightarrow>
           P (key # keys) h dict res"
    and ListError: "\<And>key keys h dict d r xs e. deref h dict = Some (ODict d) \<Longrightarrow>
           map_of d key = Some (PRef r) \<Longrightarrow> deref h r = Some (OList xs) \<Longrightarrow> appending \<Longrightarrow>
           value = Inl e \<Longrightarrow> P (key # keys) h dict (h, [], Some e)"
    and CompareError: "\<And>key keys h dict d r xs v e. deref h dict = Some (ODict d) \<Longrightarrow>
           map_of d key = Some (PRef r) \<Longrightarrow> deref h r = Some (OList xs) \<Longrightarrow> appending \<Longrightarrow>
           value = Inr v \<Longrightarrow> list_contains limit h xs v = Inl e \<Longrightarrow>
           P (key # keys) h dict (h, [], Some e)"
    and ListPresent: "\<And>key keys h dict d r xs v res. deref h dict = Some (ODict d) \<Longrightarrow>
           map_of d key = Some (PRef r) \<Longrightarrow> deref h r = Some (OList xs) \<Longrightarrow> appending \<Longrightarrow>
           value = Inr v \<Longrightarrow> list_contains limit h xs v = Inr True \<Longrightarrow>
           P keys h dict res \<Longrightarrow> res = resolve_keys_in limit appending value keys h dict \<Longrightarrow>
           P (key # keys) h dict res"
    and ListAppend: "\<And>key keys h dict d r xs v res. deref h dict = Some (ODict d) \<Longrightarrow>
           map_of d key = Some (PRef r) \<Longrightarrow> deref h r = Some (OList xs) \<Longrightarrow> appending \<Longrightarrow>
           value = Inr v \<Longrightarrow> list_contains limit h xs v = Inr False \<Longrightarrow>
           P keys (store h r (OList (xs @ [v]))) dict res \<Longrightarrow>
           res = resolve_keys_in limit appending value keys (store h r (OList (xs @ [v]))) dict \<Longrightarrow>
           P (key # keys) h dict res"
    and Conflict: "\<And>key keys h dict d x h' cs err. deref h dict = Some (ODict d) \<Longrightarrow>
           map_of d key = Some x \<Longrightarrow> is_conflict appending h x \<Longrightarrow>
           P keys h dict (h', cs, err) \<Longrightarrow>
           resolve_keys_in limit appending value keys h dict = (h', cs, err) \<Longrightarrow>
           P (key # keys) h dict (h', key # cs, err)"
  shows "P keys h dict (resolve_keys_in limit appending value keys h dict)"
proof (induction keys arbitrary: h dict)
  case Nil
  show ?case by (simp add: assms(1))
next
  case (Cons key keys)
  show ?case
  proof (cases "deref h dict")
    case None
    then have *: "\<forall>d. deref h dict \<noteq> Some (ODict d)" by simp
    show ?thesis
      by (simp only: resolve_keys_in_no_dict [OF *] NoDict [OF *])
  next
    case (Some ob)
    show ?thesis
    proof (cases ob)
      case (OList xs)
      with Some have *: "\<forall>d. deref h dict \<noteq> Some (ODict d)" by simp
      show ?thesis
        by (simp only: resolve_keys_in_no_dict [OF *] NoDict [OF *])
    next
      case (ODict d)
      with Some have d: "deref h dict = Some (ODict d)" by simp
      show ?thesis
      proof (cases "map_of d key")
        case None
        note k = None
        show ?thesis
        proof (cases "keys = []")
          case False
          show ?thesis
            by (simp only: resolve_keys_in_missing_inner [OF d k False])
               (rule MissingInner [OF d k False Cons.IH refl])
        next
          case True
          show ?thesis
          proof (cases appending)
            case False
            show ?thesis
            proof (cases "value")
              case (Inl e)
              from OverwriteError [OF d k False Inl] show ?thesis
                using True False Inl resolve_keys_in_missing_last_overwrite [OF d k, of limit "value"]
                by simp
            next
              case (Inr v)
              from Overwrite [OF d k False Inr] show ?thesis
                using True False Inr resolve_keys_in_missing_last_overwrite [OF d k, of limit "value"]
                by simp
            qed
          next
            case app: True
            show ?thesis
            proof (cases "map_of d ''key''")
              case None
              show ?thesis
              proof (cases "value")
                case (Inl e)
                from AppendNewError [OF d k app None Inl] show ?thesis
                  using True app Inl resolve_keys_in_missing_last_append [OF d k None, of limit "value"]
                  by simp
              next
                case (Inr v)
                from AppendNew [OF d k app None Inr] show ?thesis
                  using True app Inr resolve_keys_in_missing_last_append [OF d k None, of limit "value"]
                  by simp
              qed
            next
              case (Some got)
              note g = resolve_keys_in_missing_last_append_key [OF d k Some, of limit "value"]
              show ?thesis
              proof (cases "\<exists>r xs. got = PRef r \<and> deref h r = Some (OList xs)")
                case False
                then have nl: "\<forall>r xs. got = PRef r \<longrightarrow> deref h r \<noteq> Some (OList xs)" by blast
                have "resolve_keys_in limit True value [key] h dict =
                        (store h dict (ODict (dict_set key got d)), [], Some AttributeError)"
                  using g nl d by (auto simp: deref_store split: pval.splits option.splits obj.splits)
                with AppendKeyNoList [OF d k app Some nl] show ?thesis
                  using True app by simp
              next
                case yes: True
                then obtain r xs where r: "got = PRef r" "deref h r = Some (OList xs)" by blast
                from r d have ne: "r \<noteq> dict" by auto
                have s: "map_of d ''key'' = Some (PRef r)" using Some r by simp
                show ?thesis
                proof (cases "value")
                  case (Inl e)
                  from AppendKeyError [OF d k app s r(2) Inl] show ?thesis
                    using True app Inl g r ne by (simp add: deref_store)
                next
                  case (Inr v)
                  from AppendKey [OF d k app s r(2) Inr] show ?thesis
                    using True app Inr g r ne by (simp add: deref_store)
                qed
              qed
            qed
          qed
        qed
      next
        case (Some x)
        show ?thesis
        proof (cases "is_conflict appending h x")
          case True
          obtain h' cs err where
            res: "resolve_keys_in limit appending value keys h dict = (h', cs, err)"
            using prod_cases3 by blast
          have "P keys h dict (h', cs, err)"
            using Cons.IH [of h dict] res by simp
          from Conflict [OF d Some True this res] show ?thesis
            by (simp add: resolve_keys_in_conflict [OF d Some True] res)
        next
          case False
          then obtain r where x: "x = PRef r"
            by (cases x) (simp_all add: is_conflict_def)
          with Some have s: "map_of d key = Some (PRef r)" by simp
          from False x obtain ob' where o: "deref h r = Some ob'"
            by (cases "deref h r") (simp_all add: is_conflict_def)
          show ?thesis
          proof (cases ob')
            case (ODict sub)
            with o have o': "deref h r = Some (ODict sub)" by simp
            show ?thesis
              by (simp only: resolve_keys_in_dict [OF d s o'])
                 (rule Enter [OF d s o' Cons.IH refl])
          next
            case (OList xs)
            with o have o': "deref h r = Some (OList xs)" by simp
            with False x have app: appending by (simp add: is_conflict_def)
            note l = resolve_keys_in_list [OF d s o', of limit "value" keys]
            show ?thesis
            proof (cases "value")
              case (Inl e)
              from ListError [OF d s o' app Inl] show ?thesis
                using l app Inl by simp
            next
              case (Inr v)
              show ?thesis
              proof (cases "list_contains limit h xs v")
                case (Inl e)
                from CompareError [OF d s o' app Inr Inl] show ?thesis
                  using l app Inr Inl by simp
              next
                case c: (Inr b)
                show ?thesis
                proof (cases b)
                  case True
                  with c have c': "list_contains limit h xs v = Inr True" by simp
                  from ListPresent [OF d s o' app Inr c' Cons.IH refl] show ?thesis
                    using l app Inr c' by simp
                next
                  case False
                  with c have c': "list_contains limit h xs v = Inr False" by simp
                  from ListAppend [OF d s o' app Inr c' Cons.IH refl] show ?thesis
                    using l app Inr c' by simp
                qed
              qed
            qed
          qed
        qed
      qed
    qed
  qed
qed

lemma obj_extends_refl: "obj_extends ob ob"
  by (cases ob) (simp_all add: list_all_iff)


lemma obj_extends_ODict:
  "obj_extends (ODict d) (ODict d') \<longleftrightarrow> (\<forall>k v. map_of d k = Some v \<longrightarrow> map_of d' k = Some v)"
proof
  assume "obj_extends (ODict d) (ODict d')"
  then have *: "\<forall>k\<in>set (map fst d). map_of d' k = map_of d k"
    by (simp only: obj_extends.simps list_all_iff)
  show "\<forall>k v. map_of d k = Some v \<longrightarrow> map_of d' k = Some v"
  proof (intro allI impI)
    fix k v
    assume m: "map_of d k = Some v"
    then have "(k, v) \<in> set d" by (rule map_of_SomeD)
    then have "k \<in> set (map fst d)" by force
    with * have "map_of d' k = map_of d k" by (rule bspec)
    with m show "map_of d' k = Some v" by (simp only:)
  qed
next
  assume r: "\<forall>k v. map_of d k = Some v \<longrightarrow> map_of d' k = Some v"
  have "\<forall>k\<in>set (map fst d). map_of d' k = map_of d k"
  proof
    fix k
    assume "k \<in> set (map fst d)"
    then have "map_of d k \<noteq> None" by (simp add: map_of_eq_None_iff)
    then obtain v where "map_of d k = Some v" by blast
    with r show "map_of d' k = map_of d k" by simp
  qed
  then show "obj_extends (ODict d) (ODict d')"
    by (simp only: obj_extends.simps list_all_iff)
qed

lemma obj_extends_OList:
  "obj_extends (OList xs) (OList ys) \<longleftrightarrow> (\<exists>zs. ys = xs @ zs)"
proof
  assume "obj_extends (OList xs) (OList ys)"
  then have "take (length xs) ys = xs" by simp
  then have "ys = xs @ drop (length xs) ys" by (metis append_take_drop_id)
  then show "\<exists>zs. ys = xs @ zs" ..
next
  assume "\<exists>zs. ys = xs @ zs"
  then show "obj_extends (OList xs) (OList ys)" by auto
qed

declare obj_extends.simps(1,2) [simp del]

lemma obj_extends_trans:
  assumes "obj_extends a b" and "obj_extends b c"
  shows "obj_extends a c"
proof (cases a)
  case (OList xs)
  with assms(1) obtain ys where b: "b = OList ys" by (cases b) simp_all
  with assms(2) obtain zs where c: "c = OList zs" by (cases c) simp_all
  from assms show ?thesis
    unfolding OList b c obj_extends_OList by auto
next
  case (ODict d)
  with assms(1) obtain d' where b: "b = ODict d'" by (cases b) simp_all
  with assms(2) obtain d'' where c: "c = ODict d''" by (cases c) simp_all
  from assms show ?thesis
    unfolding ODict b c obj_extends_ODict by blast
qed

lemma grows_iff:
  "grows h h' \<longleftrightarrow> length h \<le> length h' \<and> (\<forall>a<length h. obj_extends (h ! a) (h' ! a))"
  by (auto simp: grows_def list_all2_conv_all_nth)

lemma grows_refl: "grows h h"
  by (simp add: grows_iff obj_extends_refl)

lemma grows_trans: "grows h h' \<Longrightarrow> grows h' h'' \<Longrightarrow> grows h h''"
  unfolding grows_iff by (meson obj_extends_trans le_trans less_le_trans)

lemma grows_append: "grows h (h @ [ob])"
  by (simp add: grows_iff nth_append obj_extends_refl)

lemma grows_store: "deref h a = Some ob \<Longrightarrow> obj_extends ob ob' \<Longrightarrow> grows h (store h a ob')"
  by (auto simp: grows_iff store_def deref_def nth_list_update obj_extends_refl split: if_splits)

lemma obj_extends_dict_set:
  "map_of d key = None \<Longrightarrow> obj_extends (ODict d) (ODict (dict_set key v d))"
  by (auto simp: obj_extends_ODict map_of_dict_set)

lemma obj_extends_snoc: "obj_extends (OList xs) (OList (xs @ ys))"
  by (simp add: obj_extends_OList)

lemma grows_store_dict_set:
  "deref h a = Some (ODict d) \<Longrightarrow> map_of d key = None \<Longrightarrow>
   grows h (store h a (ODict (dict_set key v d)))"
  by (rule grows_store [where ob = "ODict d"]) (simp_all add: obj_extends_dict_set)

lemma grows_store_snoc:
  "deref h a = Some (OList xs) \<Longrightarrow> grows h (store h a (OList (xs @ ys)))"
  by (rule grows_store [where ob = "OList xs"]) (simp_all add: obj_extends_snoc)

lemma grows_deref_dict:
  assumes "grows h h'" and "deref h a = Some (ODict d)"
  shows "\<exists>d'. deref h' a = Some (ODict d') \<and> (\<forall>k v. map_of d k = Some v \<longrightarrow> map_of d' k = Some v)"
proof -
  from assms(2) have a: "a < length h" "h ! a = ODict d"
    by (simp_all add: deref_def split: if_splits)
  with assms(1) have l: "a < length h'" and e: "obj_extends (ODict d) (h' ! a)"
    by (auto simp: grows_iff)
  from e obtain d' where d': "h' ! a = ODict d'" by (cases "h' ! a") simp_all
  with e l show ?thesis
    by (simp add: obj_extends_ODict deref_def)
qed

lemma grows_deref_list:
  assumes "grows h h'" and "deref h a = Some (OList xs)"
  shows "\<exists>ys. deref h' a = Some (OList (xs @ ys))"
proof -
  from assms(2) have a: "a < length h" "h ! a = OList xs"
    by (simp_all add: deref_def split: if_splits)
  with assms(1) have l: "a < length h'" and e: "obj_extends (OList xs) (h' ! a)"
    by (auto simp: grows_iff)
  from e obtain ys where ys: "h' ! a = OList ys" by (cases "h' ! a") simp_all
  with e l show ?thesis
    by (auto simp: obj_extends_OList deref_def)
qed

lemma resolve_keys_in_grows:
  "grows h (fst (resolve_keys_in limit appending value keys h dict))"
proof (rule resolve_keys_in_induct
    [where P = "\<lambda>keys h dict res. grows h (fst res)"], goal_cases)
  case (1 h dict)
  show ?case by (simp add: grows_refl)
next
  case (2 key keys h dict)
  show ?case by (simp add: grows_refl)
next
  case (3 key h dict d e)
  show ?case by (simp add: grows_refl)
next
  case (4 key h dict d v)
  then show ?case by (simp add: grows_store_dict_set)
next
  case (5 key h dict d e)
  have "grows h (h @ [OList []])" by (rule grows_append)
  moreover have "grows (h @ [OList []])
      (store (h @ [OList []]) dict (ODict (dict_set key (PRef (length h)) d)))"
    using 5 by (intro grows_store [where ob = "ODict d"] obj_extends_dict_set)
      (auto simp: deref_append dest: deref_less)
  ultimately show ?case by (auto intro: grows_trans)
next
  case (6 key h dict d v)
  let ?h2 = "store (h @ [OList []]) dict (ODict (dict_set key (PRef (length h)) d))"
  from 6 have ne: "dict \<noteq> length h" by (auto dest: deref_less)
  have "grows h (h @ [OList []])" by (rule grows_append)
  moreover have "grows (h @ [OList []]) ?h2"
    using 6 by (intro grows_store [where ob = "ODict d"] obj_extends_dict_set)
      (auto simp: deref_append dest: deref_less)
  moreover have "grows ?h2 (store ?h2 (length h) (OList [v]))"
    using ne by (intro grows_store [where ob = "OList []"])
      (auto simp: deref_store deref_append obj_extends_OList)
  ultimately show ?case by (auto intro: grows_trans)
next
  case (7 key h dict d got)
  then show ?case by (simp add: grows_store_dict_set)
next
  case (8 key h dict d r xs e)
  then show ?case by (simp add: grows_store_dict_set)
next
  case (9 key h dict d r xs v)
  let ?h1 = "store h dict (ODict (dict_set key (PRef r) d))"
  from 9 have ne: "r \<noteq> dict" by auto
  have "grows h ?h1" using 9 by (simp add: grows_store_dict_set)
  moreover have "grows ?h1 (store ?h1 r (OList (xs @ [v])))"
    using 9 ne by (intro grows_store_snoc) (auto simp: deref_store)
  ultimately show ?case by (auto intro: grows_trans)
next
  case (10 key keys h dict d res)
  let ?h2 = "store (h @ [ODict []]) dict (ODict (dict_set key (PRef (length h)) d))"
  have "grows h (h @ [ODict []])" by (rule grows_append)
  moreover have "grows (h @ [ODict []]) ?h2"
    using 10 by (intro grows_store [where ob = "ODict d"] obj_extends_dict_set)
      (auto simp: deref_append dest: deref_less)
  ultimately show ?case using 10(4) by (auto intro: grows_trans)
next
  case (11 key keys h dict d r sub res)
  then show ?case by simp
next
  case (12 key keys h dict d r xs e)
  show ?case by (simp add: grows_refl)
next
  case (13 key keys h dict d r xs v e)
  show ?case by (simp add: grows_refl)
next
  case (14 key keys h dict d r xs v res)
  then show ?case by simp
next
  case (15 key keys h dict d r xs v res)
  have "grows h (store h r (OList (xs @ [v])))"
    using 15 by (intro grows_store_snoc) auto
  with 15(7) show ?case by (auto intro: grows_trans)
next
  case (16 key keys h dict d x h' cs err)
  then show ?case by simp
qed

lemma is_conflict_store_list:
  "deref h r = Some (OList xs) \<Longrightarrow>
   is_conflict appending (store h r (OList ys)) x = is_conflict appending h x"
  by (auto simp: is_conflict_def deref_store split: pval.splits option.splits obj.splits
      dest: deref_less)

lemma conflict_keys_store_list:
  "deref h r = Some (OList xs) \<Longrightarrow>
   conflict_keys appending keys (store h r (OList ys)) dict = conflict_keys appending keys h dict"
proof (induction keys arbitrary: dict)
  case Nil
  show ?case by simp
next
  case (Cons key keys)
  from Cons.prems have r: "r < length h" by (rule deref_less)
  show ?case
  proof (cases "dict = r")
    case True
    with Cons.prems r show ?thesis by (simp add: deref_store)
  next
    case False
    then have d: "deref (store h r (OList ys)) dict = deref h dict"
      by (simp add: deref_store)
    have k: "deref (store h r (OList ys)) a = Some (ODict sub) \<longleftrightarrow> deref h a = Some (ODict sub)"
      for a sub
      using Cons.prems by (auto simp: deref_store)
    show ?thesis
      using Cons.prems Cons.IH
      by (auto simp: d is_conflict_store_list [OF Cons.prems] deref_store
          split: option.splits obj.splits pval.splits)
  qed
qed

lemma conflict_keys_empty_dict:
  "deref h dict = Some (ODict []) \<Longrightarrow> conflict_keys appending keys h dict = []"
  by (cases keys) simp_all

lemma resolve_keys_in_conflicts:
  "resolve_keys_in limit appending value keys h dict = (h', cs, None) \<Longrightarrow>
   cs = conflict_keys appending keys h dict"
proof -
  have "snd (snd (resolve_keys_in limit appending value keys h dict)) = None \<longrightarrow>
        fst (snd (resolve_keys_in limit appending value keys h dict)) =
          conflict_keys appending keys h dict"
  proof (rule resolve_keys_in_induct
      [where P = "\<lambda>keys h dict res. snd (snd res) = None \<longrightarrow>
                    fst (snd res) = conflict_keys appending keys h dict"], goal_cases)
    case (10 key keys h dict d res)
    from 10(1) have "dict \<noteq> length h" by (auto dest: deref_less)
    then have "deref (store (h @ [ODict []]) dict (ODict (dict_set key (PRef (length h)) d)))
                 (length h) = Some (ODict [])"
      by (simp add: deref_store deref_append)
    then have "conflict_keys appending keys
                 (store (h @ [ODict []]) dict (ODict (dict_set key (PRef (length h)) d)))
                 (length h) = []"
      by (rule conflict_keys_empty_dict)
    with 10 show ?case by simp
  next
    case (11 key keys h dict d r sub res)
    then show ?case by (simp add: is_conflict_def)
  next
    case (14 key keys h dict d r xs v res)
    then show ?case by (simp add: is_conflict_def)
  next
    case (15 key keys h dict d r xs v res)
    then show ?case by (simp add: is_conflict_def conflict_keys_store_list)
  next
    case (16 key keys h dict d x h' cs err)
    then show ?case by simp
  qed simp_all
  then show "resolve_keys_in limit appending value keys h dict = (h', cs, None) \<Longrightarrow>
    cs = conflict_keys appending keys h dict"
    by simp
qed

lemma get_fields_in_grows:
  "grows h h' \<Longrightarrow> get_fields_in h x keys = v \<Longrightarrow> v \<noteq> PNone \<Longrightarrow> get_fields_in h' x keys = v"
proof (induction keys arbitrary: x)
  case Nil
  then show ?case by simp
next
  case (Cons key keys)
  from Cons.prems(2,3) obtain a d w where x: "x = PRef a" "deref h a = Some (ODict d)"
      "map_of d key = Some w" "get_fields_in h w keys = v"
    by (auto split: pval.splits option.splits obj.splits)
  from grows_deref_dict [OF Cons.prems(1) x(2)] x(3) obtain d' where
    d': "deref h' a = Some (ODict d')" "map_of d' key = Some w"
    by blast
  from Cons.IH [OF Cons.prems(1) x(4) Cons.prems(3)] x(1) d' show ?case
    by simp
qed

lemma get_fields_in_empty_dict:
  "deref h a = Some (ODict []) \<Longrightarrow> keys \<noteq> [] \<Longrightarrow> get_fields_in h (PRef a) keys = PNone"
  by (cases keys) simp_all

lemma resolve_keys_in_overwrite_absent:
  assumes "resolve_keys_in limit False (Inr v) keys h dict = (h', [], None)"
    and "keys \<noteq> []" and "get_fields_in h (PRef dict) keys = PNone"
  shows "get_fields_in h' (PRef dict) keys = v"
proof -
  have "fst (snd (resolve_keys_in limit False (Inr v) keys h dict)) = [] \<longrightarrow>
        snd (snd (resolve_keys_in limit False (Inr v) keys h dict)) = None \<longrightarrow>
        keys \<noteq> [] \<longrightarrow> get_fields_in h (PRef dict) keys = PNone \<longrightarrow>
        get_fields_in (fst (resolve_keys_in limit False (Inr v) keys h dict)) (PRef dict) keys = v"
  proof (rule resolve_keys_in_induct
      [where P = "\<lambda>keys h dict res. fst (snd res) = [] \<longrightarrow> snd (snd res) = None \<longrightarrow>
                    keys \<noteq> [] \<longrightarrow> get_fields_in h (PRef dict) keys = PNone \<longrightarrow>
                    get_fields_in (fst res) (PRef dict) keys = v"], goal_cases)
    case (4 key h dict d v')
    then show ?case
      by (auto simp: deref_store map_of_dict_set dest: deref_less)
  next
    case (10 key keys h dict d res)
    let ?h2 = "store (h @ [ODict []]) dict (ODict (dict_set key (PRef (length h)) d))"
    from 10(1) have lt: "dict < length h" by (rule deref_less)
    then have e: "deref ?h2 (length h) = Some (ODict [])"
      by (simp add: deref_store deref_append)
    have dd: "deref ?h2 dict = Some (ODict (dict_set key (PRef (length h)) d))"
      using lt by (simp add: deref_store)
    have g: "grows ?h2 (fst res)"
      unfolding 10(5) by (rule resolve_keys_in_grows)
    from grows_deref_dict [OF g dd] obtain d' where
      d': "deref (fst res) dict = Some (ODict d')" "map_of d' key = Some (PRef (length h))"
      by (auto simp: map_of_dict_set)
    show ?case
    proof (intro impI)
      assume a: "fst (snd res) = []" "snd (snd res) = None"
      from get_fields_in_empty_dict [OF e 10(3)] 10(3,4) a
      have "get_fields_in (fst res) (PRef (length h)) keys = v" by simp
      with d' show "get_fields_in (fst res) (PRef dict) (key # keys) = v" by simp
    qed
  next
    case (11 key keys h dict d r sub res)
    have g: "grows h (fst res)"
      unfolding 11(5) by (rule resolve_keys_in_grows)
    from grows_deref_dict [OF g 11(1)] 11(2) obtain d' where
      d': "deref (fst res) dict = Some (ODict d')" "map_of d' key = Some (PRef r)"
      by blast
    show ?case
    proof (cases "keys = []")
      case True
      with 11 show ?thesis by simp
    next
      case False
      with 11 d' show ?thesis by simp
    qed
  qed simp_all
  with assms show ?thesis by simp
qed

lemma resolve_mappings_skip:
  "\<not> truthy h (get_dotted_field_value_in h event s) \<or>
   hs_scan hs db (get_dotted_field_value_in h event s) = Inr [] \<Longrightarrow>
   resolve_mappings limit hs db vm appending ((s, t) # fm) h event =
     resolve_mappings limit hs db vm appending fm h event"
  by (auto simp: Let_def)

lemma resolve_mappings_scan_error:
  "truthy h (get_dotted_field_value_in h event s) \<Longrightarrow>
   hs_scan hs db (get_dotted_field_value_in h event s) = Inl e \<Longrightarrow>
   resolve_mappings limit hs db vm appending ((s, t) # fm) h event = (h, [], Some e)"
  by (simp add: Let_def)

lemma resolve_mappings_match:
  assumes "truthy h (get_dotted_field_value_in h event s)"
    and "hs_scan hs db (get_dotted_field_value_in h event s) = Inr result"
    and "result \<noteq> []"
  shows "resolve_mappings limit hs db vm appending ((s, t) # fm) h event =
     (case resolve_keys_in limit appending
             (case map_of vm (Min (set result)) of None \<Rightarrow> Inl KeyError | Some v \<Rightarrow> Inr v)
             (split_from ''.'' [] t) h event of
        (h1, conflicts, Some e) \<Rightarrow> (h1, conflicts, Some e)
      | (h1, conflicts, None) \<Rightarrow>
          (case resolve_mappings limit hs db vm appending fm h1 event of
             (h2, conflicts2, err) \<Rightarrow> (h2, conflicts @ conflicts2, err)))"
  using assms by (simp add: Let_def chosen_value_Min [OF assms(3)])

lemma resolve_mappings_append:
  "resolve_mappings limit hs db vm appending (fm1 @ fm2) h event =
     (case resolve_mappings limit hs db vm appending fm1 h event of
        (h1, conflicts1, Some e) \<Rightarrow> (h1, conflicts1, Some e)
      | (h1, conflicts1, None) \<Rightarrow>
          (case resolve_mappings limit hs db vm appending fm2 h1 event of
             (h2, conflicts2, err) \<Rightarrow> (h2, conflicts1 @ conflicts2, err)))"
proof (induction fm1 arbitrary: h)
  case Nil
  show ?case by (simp split: prod.splits)
next
  case (Cons m fm1)
  obtain resolve_source resolve_target where m: "m = (resolve_source, resolve_target)"
    by (cases m) auto
  show ?case
    unfolding m
    by (simp add: Cons.IH Let_def split: sum.splits prod.splits option.splits)
qed

declare resolve_mappings.simps(2) [simp del]

lemma resolve_mappings_grows:
  "grows h (fst (resolve_mappings limit hs db vm appending fm h event))"
proof (induction fm arbitrary: h)
  case Nil
  show ?case by (simp add: grows_refl)
next
  case (Cons m fm)
  obtain s t where m: "m = (s, t)" by (cases m) auto
  let ?v = "get_dotted_field_value_in h event s"
  show ?case
  proof (cases "truthy h ?v")
    case False
    then show ?thesis unfolding m using Cons.IH by (simp add: resolve_mappings_skip)
  next
    case True
    show ?thesis
    proof (cases "hs_scan hs db ?v")
      case (Inl e)
      with True show ?thesis unfolding m
        by (simp add: resolve_mappings_scan_error grows_refl)
    next
      case (Inr result)
      show ?thesis
      proof (cases "result = []")
        case True
        with Inr show ?thesis unfolding m using Cons.IH by (simp add: resolve_mappings_skip)
      next
        case False
        obtain h1 cs1 err1 where
          w: "resolve_keys_in limit appending
                (case map_of vm (Min (set result)) of None \<Rightarrow> Inl KeyError | Some v \<Rightarrow> Inr v)
                (split_from ''.'' [] t) h event = (h1, cs1, err1)"
          using prod_cases3 by blast
        have "grows h (fst (resolve_keys_in limit appending
                (case map_of vm (Min (set result)) of None \<Rightarrow> Inl KeyError | Some v \<Rightarrow> Inr v)
                (split_from ''.'' [] t) h event))"
          by (rule resolve_keys_in_grows)
        then have g1: "grows h h1"
          unfolding w by simp
        have g2: "grows h1 (fst (resolve_mappings limit hs db vm appending fm h1 event))"
          by (rule Cons.IH)
        show ?thesis
          unfolding m resolve_mappings_match [OF True Inr False] w
          using g1 g2 by (auto split: option.splits prod.splits intro: grows_trans)
      qed
    qed
  qed
qed



lemma resolve_keys_in_overwrite_no_error:
  "deref h dict = Some (ODict d) \<Longrightarrow>
   snd (snd (resolve_keys_in limit False (Inr v) keys h dict)) = None"
proof -
  have "(\<exists>d. deref h dict = Some (ODict d)) \<longrightarrow>
        snd (snd (resolve_keys_in limit False (Inr v) keys h dict)) = None"
  proof (rule resolve_keys_in_induct
      [where P = "\<lambda>keys h dict res. (\<exists>d. deref h dict = Some (ODict d)) \<longrightarrow>
                    snd (snd res) = None"], goal_cases)
    case (10 key keys h dict d res)
    from 10(1) have "dict \<noteq> length h" by (auto dest: deref_less)
    then have "deref (store (h @ [ODict []]) dict (ODict (dict_set key (PRef (length h)) d)))
                 (length h) = Some (ODict [])"
      by (simp add: deref_store deref_append)
    with 10 show ?case by simp
  qed simp_all
  then show "deref h dict = Some (ODict d) \<Longrightarrow>
    snd (snd (resolve_keys_in limit False (Inr v) keys h dict)) = None"
    by blast
qed

lemma resolve_keys_in_overwrite_writes:
  assumes "deref h dict = Some (ODict d)" and "keys \<noteq> []"
    and "get_fields_in h (PRef dict) keys = PNone"
    and "conflict_keys False keys h dict = []"
  shows "\<exists>h'. resolve_keys_in limit False (Inr v) keys h dict = (h', [], None) \<and>
              get_fields_in h' (PRef dict) keys = v"
proof -
  obtain h' cs err where r: "resolve_keys_in limit False (Inr v) keys h dict = (h', cs, err)"
    using prod_cases3 by blast
  from resolve_keys_in_overwrite_no_error [OF assms(1), of limit v keys] r
  have e: "err = None" by simp
  from resolve_keys_in_conflicts [OF r [unfolded e]] assms(4) have c: "cs = []" by simp
  from resolve_keys_in_overwrite_absent [OF r [unfolded e c] assms(2,3)] r e c
  show ?thesis by simp
qed

lemma resolve_mappings_overwrite_writes:
  assumes prefix: "resolve_mappings limit hs db vm False fm1 h event = (h1, conflicts1, None)"
    and ev: "deref h event = Some (ODict d)"
    and tr: "truthy h1 (get_dotted_field_value_in h1 event s)"
    and sc: "hs_scan hs db (get_dotted_field_value_in h1 event s) = Inr result"
    and ne: "result \<noteq> []"
    and vm: "map_of vm (Min (set result)) = Some v"
    and ab: "get_fields_in h1 (PRef event) (split_from ''.'' [] t) = PNone"
    and nc: "conflict_keys False (split_from ''.'' [] t) h1 event = []"
  shows "\<exists>h2. resolve_keys_in limit False (Inr v) (split_from ''.'' [] t) h1 event = (h2, [], None) \<and>
              get_fields_in h2 (PRef event) (split_from ''.'' [] t) = v \<and>
              (v \<noteq> PNone \<longrightarrow>
               get_fields_in (fst (resolve_mappings limit hs db vm False (fm1 @ (s, t) # fm2) h event))
                 (PRef event) (split_from ''.'' [] t) = v)"
proof -
  have "grows h (fst (resolve_mappings limit hs db vm False fm1 h event))"
    by (rule resolve_mappings_grows)
  then have "grows h h1" unfolding prefix by simp
  from grows_deref_dict [OF this ev] obtain d1 where d1: "deref h1 event = Some (ODict d1)"
    by blast
  from resolve_keys_in_overwrite_writes [OF d1 split_from_not_Nil ab nc, of limit v]
  obtain h2 where w: "resolve_keys_in limit False (Inr v) (split_from ''.'' [] t) h1 event
                        = (h2, [], None)"
    and g: "get_fields_in h2 (PRef event) (split_from ''.'' [] t) = v"
    by blast
  have g2: "grows h2 (fst (resolve_mappings limit hs db vm False fm2 h2 event))"
    by (rule resolve_mappings_grows)
  have "fst (resolve_mappings limit hs db vm False (fm1 @ (s, t) # fm2) h event) =
        fst (resolve_mappings limit hs db vm False fm2 h2 event)"
    by (simp add: resolve_mappings_append prefix resolve_mappings_match [OF tr sc ne] vm w
        split: prod.splits)
  with get_fields_in_grows [OF g2 g] have
    "v \<noteq> PNone \<longrightarrow>
       get_fields_in (fst (resolve_mappings limit hs db vm False (fm1 @ (s, t) # fm2) h event))
         (PRef event) (split_from ''.'' [] t) = v"
    by simp
  with w g show ?thesis by blast
qed


section \<open>A replacement object is shared\<close>

text \<open>
  The value mapping holds the replacement \<^verbatim>\<open>{'x': 1}\<close> as an object of the store.
  The first mapping binds that object to \<^verbatim>\<open>t\<close>, the second writes \<^verbatim>\<open>Y\<close>
  below it at \<^verbatim>\<open>t.k\<close>, and the third binds the same object to \<^verbatim>\<open>t3\<close>:
  both targets, and the value mapping, see \<^verbatim>\<open>{'x': 1, 'k': 'Y'}\<close>.
\<close>

lemma replacement_object_is_shared:
  "GenericResolver_apply_rules 10 (table_hs [(''abc'', [0]), (''xyz'', [1])])
     (GenericResolver_init ''r'' ''/dbs'' ''/m'') \<lparr>dirs = [], files = []\<rparr>
     [ODict [(''s1'', PStr ''abc''), (''s2'', PStr ''xyz'')], ODict [(''x'', PInt 1)]] 0
     \<lparr>field_mapping = [(''s1'', ''t''), (''s2'', ''t.k''), (''s1'', ''t3'')],
      resolve_list = [(''abc'', PRef 1), (''xyz'', PStr ''Y'')], file_name = ''rules.json'',
      append_to_list = False, store_db_persistent = False\<rparr> =
   (None,
    [ODict [(''s1'', PStr ''abc''), (''s2'', PStr ''xyz''), (''t'', PRef 1), (''t3'', PRef 1)],
     ODict [(''x'', PInt 1), (''k'', PStr ''Y'')]],
    \<lparr>name = ''r'',
     hyperscan_databases = [(''rules.json'', (), [(0, PRef 1), (1, PStr ''Y'')])],
     hyperscan_database_path = ''/dbs''\<rparr>,
    \<lparr>dirs = [], files = []\<rparr>)"
  by (simp add: GenericResolver_apply_rules_def get_hyperscan_database_def load_database_def
      create_database_def db_file_def GenericResolver_init_def table_hs_def
      get_dotted_field_value_in_def resolve_mappings.simps resolve_keys_in.simps
      chosen_value_def deref_def store_def alloc_def Let_def)

section \<open>The resolver's tie-break\<close>



section \<open>Compiling a pattern database\<close>

lemma dict_set_fresh: "k \<notin> fst ` set d \<Longrightarrow> dict_set k v d = d @ [(k, v)]"
  by (induction d) auto

lemma collect_patterns_eq:
  "set ps \<subseteq> fst ` set rl \<Longrightarrow> \<forall>i \<in> fst ` set vm. i < idx \<Longrightarrow>
   collect_patterns rl idx ps acc vm =
     Inr (acc @ map (\<lambda>(i, p). (p, i, {HS_FLAG_SINGLEMATCH, HS_FLAG_CASELESS}))
                  (zip [idx..<idx + length ps] ps),
          vm @ map (\<lambda>(i, p). (i, the (map_of rl p))) (zip [idx..<idx + length ps] ps))"
proof (induction ps arbitrary: idx acc vm)
  case Nil
  then show ?case by simp
next
  case (Cons p ps)
  from Cons.prems(1) obtain v where v: "map_of rl p = Some v"
    by (metis domD dom_map_of_conv_image_fst list.set_intros(1) subsetD)
  have fresh: "idx \<notin> fst ` set vm"
    using Cons.prems(2) by auto
  have bound: "\<forall>i \<in> fst ` set (vm @ [(idx, v)]). i < Suc idx"
    using Cons.prems(2) by auto
  have upt: "[idx..<idx + length (p # ps)] = idx # [Suc idx..<Suc idx + length ps]"
    by (simp add: upt_rec)
  have "collect_patterns rl idx (p # ps) acc vm =
          collect_patterns rl (Suc idx) ps
            (acc @ [(p, idx, {HS_FLAG_SINGLEMATCH, HS_FLAG_CASELESS})]) (vm @ [(idx, v)])"
    using v fresh by (simp add: dict_set_fresh)
  also have "\<dots> =
     Inr ((acc @ [(p, idx, {HS_FLAG_SINGLEMATCH, HS_FLAG_CASELESS})]) @
            map (\<lambda>(i, p). (p, i, {HS_FLAG_SINGLEMATCH, HS_FLAG_CASELESS}))
              (zip [Suc idx..<Suc idx + length ps] ps),
          (vm @ [(idx, v)]) @
            map (\<lambda>(i, p). (i, the (map_of rl p))) (zip [Suc idx..<Suc idx + length ps] ps))"
    using Cons.prems(1) bound by (intro Cons.IH) auto
  finally show ?case
    using v by (simp only: upt) simp
qed

lemma map_of_keys_distinct:
  "distinct (map fst rl) \<Longrightarrow> map (\<lambda>p. the (map_of rl p)) (map fst rl) = map snd rl"
  by (induction rl) (auto simp: image_iff)

lemma create_database_eq:
  assumes "rl \<noteq> []"
  shows "create_database hs nm rl =
     (case hs_compile hs (map fst rl) [0..<length rl] (length rl)
             (replicate (length rl) {HS_FLAG_SINGLEMATCH, HS_FLAG_CASELESS}) of
        Inl msg \<Rightarrow> Inl (HyperscanError msg)
      | Inr database \<Rightarrow>
          Inr (database, zip [0..<length rl] (map (\<lambda>p. the (map_of rl p)) (map fst rl))))"
proof -
  let ?F = "{HS_FLAG_SINGLEMATCH, HS_FLAG_CASELESS}"
  let ?pats = "map (\<lambda>(i, p). (p, i, ?F)) (zip [0..<length rl] (map fst rl))"
  let ?vm = "map (\<lambda>(i, p). (i, the (map_of rl p))) (zip [0..<length rl] (map fst rl))"
  have c: "collect_patterns rl 0 (map fst rl) [] [] = Inr (?pats, ?vm)"
    using collect_patterns_eq [of "map fst rl" rl "[]" 0 "[]"] by simp
  have len: "length ?pats = length rl" by simp
  have ne: "?pats \<noteq> []" using assms len by (metis length_0_conv)
  have e: "map fst ?pats = map fst rl"
    by (rule nth_equalityI) simp_all
  have i: "map (fst \<circ> snd) ?pats = [0..<length rl]"
    by (rule nth_equalityI) simp_all
  have f: "map (snd \<circ> snd) ?pats = replicate (length rl) ?F"
    by (rule nth_equalityI) simp_all
  have z: "?vm = zip [0..<length rl] (map (\<lambda>p. the (map_of rl p)) (map fst rl))"
    by (rule nth_equalityI) simp_all
  show ?thesis
    unfolding create_database_def c using ne by (simp only: e i f len z sum.case prod.case if_False)
qed

text \<open>
  Claim C9, as the code has it. \<^verbatim>\<open>_create_database\<close> raises its own error exactly
  for an empty \<^verbatim>\<open>resolve_list\<close>. For a non-empty one (a dict, so its keys are
  distinct) it hands the library the patterns in iteration order with the ids
  \<open>0, 1, ...\<close> and the two flags; when the library compiles them, the call succeeds with
  the library's database and the value mapping from each id to the value at that position,
  and when the library refuses them, the call fails with the library's error.
\<close>

theorem create_database_ids:
  "((\<exists>nm' msg. create_database hs nm rl = Inl (GenericResolverError nm' msg)) \<longleftrightarrow> rl = []) \<and>
   (rl \<noteq> [] \<and> distinct (map fst rl) \<longrightarrow>
    create_database hs nm rl =
      (case hs_compile hs (map fst rl) [0..<length rl] (length rl)
              (replicate (length rl) {HS_FLAG_SINGLEMATCH, HS_FLAG_CASELESS}) of
         Inl msg \<Rightarrow> Inl (HyperscanError msg)
       | Inr database \<Rightarrow> Inr (database, zip [0..<length rl] (map snd rl)))) \<and>
   (rl \<noteq> [] \<and> distinct (map fst rl) \<and>
    hs_compile hs (map fst rl) [0..<length rl] (length rl)
      (replicate (length rl) {HS_FLAG_SINGLEMATCH, HS_FLAG_CASELESS}) = Inr database \<longrightarrow>
    create_database hs nm rl = Inr (database, zip [0..<length rl] (map snd rl)))"
proof (intro conjI iffI impI)
  assume "rl \<noteq> [] \<and> distinct (map fst rl) \<and>
    hs_compile hs (map fst rl) [0..<length rl] (length rl)
      (replicate (length rl) {HS_FLAG_SINGLEMATCH, HS_FLAG_CASELESS}) = Inr database"
  then have ne: "rl \<noteq> []" and d: "distinct (map fst rl)"
    and c: "hs_compile hs (map fst rl) [0..<length rl] (length rl)
      (replicate (length rl) {HS_FLAG_SINGLEMATCH, HS_FLAG_CASELESS}) = Inr database"
    by simp_all
  show "create_database hs nm rl = Inr (database, zip [0..<length rl] (map snd rl))"
    by (simp only: create_database_eq [OF ne] map_of_keys_distinct [OF d] c sum.case)
next
  assume "rl = []"
  then show "\<exists>nm' msg. create_database hs nm rl = Inl (GenericResolverError nm' msg)"
    by (simp add: create_database_def)
next
  assume g: "\<exists>nm' msg. create_database hs nm rl = Inl (GenericResolverError nm' msg)"
  show "rl = []"
  proof (rule ccontr)
    assume "rl \<noteq> []"
    from create_database_eq [OF this, of hs nm] g show False
      by (auto split: sum.splits)
  qed
next
  assume "rl \<noteq> [] \<and> distinct (map fst rl)"
  then have ne: "rl \<noteq> []" and d: "distinct (map fst rl)"
    by simp_all
  show "create_database hs nm rl =
      (case hs_compile hs (map fst rl) [0..<length rl] (length rl)
              (replicate (length rl) {HS_FLAG_SINGLEMATCH, HS_FLAG_CASELESS}) of
         Inl msg \<Rightarrow> Inl (HyperscanError msg)
       | Inr database \<Rightarrow> Inr (database, zip [0..<length rl] (map snd rl)))"
    by (simp only: create_database_eq [OF ne] map_of_keys_distinct [OF d])
qed

theorem create_database_ids_witness:
  "create_database (stub_hs []) ''r'' [] =
     Inl (GenericResolverError ''r'' ''No patter to compile for hyperscan database!'') \<and>
   create_database (stub_hs []) ''r'' [(''^abc$'', VStr ''X''), (''^ab'', VStr ''Y'')] =
     Inr ((), [(0, VStr ''X''), (1, VStr ''Y'')])"
  using create_database_ids [of "stub_hs []" "''r''" "[(''^abc$'', VStr ''X''), (''^ab'', VStr ''Y'')]"]
    create_database_ids [of "stub_hs []" "''r''" "[]"]
  by (simp add: stub_hs_def create_database_def upt_rec)

text \<open>
  Claim C9 as worded does not hold: a non-empty \<^verbatim>\<open>resolve_list\<close> whose pattern the
  library refuses does not compile; the call ends in the library's error.
\<close>

theorem create_database_refused_counterexample:
  "create_database strict_hs ''r'' [(''('', VStr ''X'')] =
     Inl (HyperscanError ''Missing close parenthesis'')"
  by (simp add: strict_hs_def create_database_def)

section \<open>The database cache\<close>

lemma load_database_not_found:
  "load_database hs self fs database_id rl = Inl FileNotFoundError \<longleftrightarrow>
   map_of (files fs) (db_file (hyperscan_database_path self) database_id) = None"
proof -
  have "load_values rl idx ps vm \<noteq> Inl FileNotFoundError" for idx ps vm
    by (induction ps arbitrary: idx vm) (auto split: option.splits)
  then show ?thesis
    by (auto simp: load_database_def split: option.splits sum.splits)
qed

lemma get_hyperscan_database_hit:
  "map_of (hyperscan_databases self) (file_name rule) = Some entry \<Longrightarrow>
   get_hyperscan_database hs self fs rule = Inr (entry, self, fs)"
  by (simp add: get_hyperscan_database_def)

lemma get_hyperscan_database_miss:
  assumes "map_of (hyperscan_databases self) (file_name rule) = None"
    and "get_hyperscan_database hs self fs rule = Inr (entry, self', fs')"
  shows "self' = self\<lparr>hyperscan_databases :=
                       dict_set (file_name rule) entry (hyperscan_databases self)\<rparr>"
    and "(case map_of (files fs) (db_file (hyperscan_database_path self) (file_name rule)) of
            Some data \<Rightarrow>
              load_database hs self fs (file_name rule) (resolve_list rule) = Inr entry \<and>
              fs' = fs
          | None \<Rightarrow>
              create_database hs (name self) (resolve_list rule) = Inr entry \<and>
              fs' = (if store_db_persistent rule
                     then save_database hs self fs (fst entry) (file_name rule) else fs))"
proof -
  let ?l = "load_database hs self fs (file_name rule) (resolve_list rule)"
  show "self' = self\<lparr>hyperscan_databases :=
                       dict_set (file_name rule) entry (hyperscan_databases self)\<rparr>"
    using assms
    by (cases ?l; cases "create_database hs (name self) (resolve_list rule)")
       (auto simp: get_hyperscan_database_def Let_def split: exn.splits)
  show "(case map_of (files fs) (db_file (hyperscan_database_path self) (file_name rule)) of
            Some data \<Rightarrow> ?l = Inr entry \<and> fs' = fs
          | None \<Rightarrow>
              create_database hs (name self) (resolve_list rule) = Inr entry \<and>
              fs' = (if store_db_persistent rule
                     then save_database hs self fs (fst entry) (file_name rule) else fs))"
  proof (cases "map_of (files fs) (db_file (hyperscan_database_path self) (file_name rule))")
    case None
    then have "?l = Inl FileNotFoundError"
      by (simp add: load_database_not_found)
    with assms None show ?thesis
      by (cases "create_database hs (name self) (resolve_list rule)")
         (auto simp: get_hyperscan_database_def Let_def)
  next
    case (Some data)
    then have "?l \<noteq> Inl FileNotFoundError"
      by (simp add: load_database_not_found)
    with assms Some show ?thesis
      by (cases ?l) (auto simp: get_hyperscan_database_def Let_def split: exn.splits)
  qed
qed

lemma get_hyperscan_database_cached:
  assumes "get_hyperscan_database hs self fs rule = Inr (entry, self', fs')"
  shows "map_of (hyperscan_databases self') (file_name rule) = Some entry"
proof (cases "map_of (hyperscan_databases self) (file_name rule)")
  case None
  from get_hyperscan_database_miss(1) [OF None assms] show ?thesis
    by (simp add: map_of_dict_set)
next
  case (Some e)
  with assms show ?thesis
    by (simp add: get_hyperscan_database_hit)
qed

lemma get_hyperscan_database_keeps:
  assumes "get_hyperscan_database hs self fs rule = Inr (entry, self', fs')"
    and "map_of (hyperscan_databases self) database_id = Some e"
  shows "map_of (hyperscan_databases self') database_id = Some e"
proof (cases "map_of (hyperscan_databases self) (file_name rule)")
  case None
  then have "database_id \<noteq> file_name rule"
    using assms(2) by auto
  with get_hyperscan_database_miss(1) [OF None assms(1)] assms(2) show ?thesis
    by (simp add: map_of_dict_set)
next
  case (Some e')
  with assms show ?thesis
    by (simp add: get_hyperscan_database_hit)
qed

lemma acquire_all_keeps:
  "map_of (hyperscan_databases self) database_id = Some e \<Longrightarrow>
   map_of (hyperscan_databases (fst (acquire_all hs self fs rules))) database_id = Some e"
proof (induction rules arbitrary: self fs)
  case Nil
  then show ?case by simp
next
  case (Cons rule rules)
  show ?case
  proof (cases "get_hyperscan_database hs self fs rule")
    case (Inl x)
    with Cons show ?thesis by simp
  next
    case (Inr r)
    obtain entry self' fs' where r: "r = (entry, self', fs')"
      by (cases r) auto
    from get_hyperscan_database_keeps [OF Inr [unfolded r] Cons.prems]
    have "map_of (hyperscan_databases self') database_id = Some e" .
    from Cons.IH [OF this] Inr r show ?thesis by simp
  qed
qed

text \<open>
  Claim C8. After a call of \<^verbatim>\<open>_get_hyperscan_database\<close> that returns, the cache
  holds the answer under the rule's file name; every later call for that file name, whatever
  the library, the file system and the rest of the rule, answers the cached entry and
  changes nothing, so it neither loads, compiles nor saves; and no sequence of later calls
  changes the entry. Where the cache had no entry, the answer was loaded if the database
  file exists, with the file system untouched, and compiled otherwise, with the file
  written only when \<^verbatim>\<open>store_db_persistent\<close> is set.
\<close>

theorem database_cache:
  assumes "get_hyperscan_database hs self fs rule = Inr (entry, self', fs')"
    and "file_name rule' = file_name rule"
  shows "map_of (hyperscan_databases self') (file_name rule) = Some entry \<and>
         get_hyperscan_database hs' self' fs'' rule' = Inr (entry, self', fs'') \<and>
         map_of (hyperscan_databases (fst (acquire_all hs' self' fs'' rules))) (file_name rule)
           = Some entry \<and>
         (map_of (hyperscan_databases self) (file_name rule) = None \<longrightarrow>
            self' = self\<lparr>hyperscan_databases :=
                           dict_set (file_name rule) entry (hyperscan_databases self)\<rparr> \<and>
            (case map_of (files fs) (db_file (hyperscan_database_path self) (file_name rule)) of
               Some data \<Rightarrow>
                 load_database hs self fs (file_name rule) (resolve_list rule) = Inr entry \<and>
                 fs' = fs
             | None \<Rightarrow>
                 create_database hs (name self) (resolve_list rule) = Inr entry \<and>
                 fs' = (if store_db_persistent rule
                        then save_database hs self fs (fst entry) (file_name rule) else fs)))"
proof -
  have c: "map_of (hyperscan_databases self') (file_name rule) = Some entry"
    using assms(1) by (rule get_hyperscan_database_cached)
  then have "map_of (hyperscan_databases self') (file_name rule') = Some entry"
    using assms(2) by simp
  then have again: "get_hyperscan_database hs' self' fs'' rule' = Inr (entry, self', fs'')"
    by (rule get_hyperscan_database_hit)
  have never: "map_of (hyperscan_databases (fst (acquire_all hs' self' fs'' rules)))
                 (file_name rule) = Some entry"
    using c by (rule acquire_all_keeps)
  from c again never get_hyperscan_database_miss [OF _ assms(1)] show ?thesis
    by blast
qed

theorem database_cache_witness:
  "get_hyperscan_database (stub_hs []) (GenericResolver_init ''r'' ''/dbs'' ''/m'')
     \<lparr>dirs = [], files = []\<rparr>
     \<lparr>field_mapping = [(''src'', ''target'')], resolve_list = [(''abc'', VStr ''X'')],
      file_name = ''rules.json'', append_to_list = False, store_db_persistent = True\<rparr> =
   Inr (((), [(0, VStr ''X'')]),
        \<lparr>name = ''r'', hyperscan_databases = [(''rules.json'', (), [(0, VStr ''X'')])],
         hyperscan_database_path = ''/dbs''\<rparr>,
        \<lparr>dirs = [''/dbs''], files = [(''/dbs/rules.json.db'', ''blob'')]\<rparr>) \<and>
   get_hyperscan_database (stub_hs [1])
     \<lparr>name = ''r'', hyperscan_databases = [(''rules.json'', (), [(0, VStr ''X'')])],
      hyperscan_database_path = ''/dbs''\<rparr>
     \<lparr>dirs = [], files = []\<rparr>
     \<lparr>field_mapping = [], resolve_list = [],
      file_name = ''rules.json'', append_to_list = True, store_db_persistent = True\<rparr> =
   Inr (((), [(0, VStr ''X'')]),
        \<lparr>name = ''r'', hyperscan_databases = [(''rules.json'', (), [(0, VStr ''X'')])],
         hyperscan_database_path = ''/dbs''\<rparr>,
        \<lparr>dirs = [], files = []\<rparr>)"
  using database_cache [of "stub_hs []" "GenericResolver_init ''r'' ''/dbs'' ''/m''"
      "\<lparr>dirs = [], files = []\<rparr>"
      "\<lparr>field_mapping = [(''src'', ''target'')], resolve_list = [(''abc'', VStr ''X'')],
        file_name = ''rules.json'', append_to_list = False, store_db_persistent = True\<rparr>"
      "((), [(0, VStr ''X'')])"
      "\<lparr>name = ''r'', hyperscan_databases = [(''rules.json'', (), [(0, VStr ''X'')])],
        hyperscan_database_path = ''/dbs''\<rparr>"
      "\<lparr>dirs = [''/dbs''], files = [(''/dbs/rules.json.db'', ''blob'')]\<rparr>"
      "\<lparr>field_mapping = [], resolve_list = [],
        file_name = ''rules.json'', append_to_list = True, store_db_persistent = True\<rparr>"
      "stub_hs [1]" "\<lparr>dirs = [], files = []\<rparr>" "[]"]
  by (simp add: get_hyperscan_database_def load_database_def create_database_def
      save_database_def create_hyperscan_dbs_dir_def db_file_def GenericResolver_init_def
      stub_hs_def)

section \<open>Appending to a list\<close>

lemma py_eq_refl: "py_eq v v"
proof (induction v)
  case (VList xs)
  then show ?case by (auto simp: set_conv_nth)
next
  case (VDict d)
  have "\<And>k. k \<in> fst ` set d \<Longrightarrow> \<exists>v. map_of d k = Some v \<and> (k, v) \<in> set d"
    by (metis domD dom_map_of_conv_image_fst map_of_SomeD)
  with VDict show ?case
    by (fastforce split: option.splits)
qed auto

lemma py_in_appended: "py_in v (xs @ [v])"
  by (simp add: py_in_def py_eq_refl)

lemma py_in_filter: "py_in v xs \<longleftrightarrow> filter (\<lambda>x. py_eq x v) xs \<noteq> []"
  by (simp add: py_in_def list_ex_iff filter_empty_conv)

lemma dict_set_same: "map_of d k = Some v \<Longrightarrow> dict_set k v d = d"
  by (induction d) (auto split: if_splits)

lemma resolve_keys_append_list:
  "get_fields (VDict d) keys = VList xs \<Longrightarrow>
   \<exists>d1. resolve_keys True (Inr v) keys d = (d1, [], None) \<and>
        get_fields (VDict d1) keys = VList (if py_in v xs then xs else xs @ [v]) \<and>
        (py_in v xs \<longrightarrow> d1 = d)"
proof (induction keys arbitrary: d)
  case Nil
  then show ?case by simp
next
  case (Cons key keys)
  from Cons.prems obtain x where x: "map_of d key = Some x"
    by (auto split: option.splits)
  show ?case
  proof (cases "keys = []")
    case True
    with Cons.prems x have l: "map_of d key = Some (VList xs)"
      by simp
    show ?thesis
      using True l by (simp add: resolve_keys_list resolve_keys.simps(1) map_of_dict_set)
  next
    case False
    with Cons.prems x obtain sub where sub: "x = VDict sub" "get_fields (VDict sub) keys = VList xs"
      by (cases keys; cases x) auto
    from Cons.IH [OF sub(2)] obtain sub1 where
      s: "resolve_keys True (Inr v) keys sub = (sub1, [], None)"
         "get_fields (VDict sub1) keys = VList (if py_in v xs then xs else xs @ [v])"
         "py_in v xs \<longrightarrow> sub1 = sub"
      by blast
    have "resolve_keys True (Inr v) (key # keys) d = (dict_set key (VDict sub1) d, [], None)"
      using x sub(1) s(1) by (simp add: resolve_keys_dict)
    moreover have "get_fields (VDict (dict_set key (VDict sub1) d)) (key # keys) =
                     VList (if py_in v xs then xs else xs @ [v])"
      using s(2) by (simp add: map_of_dict_set)
    moreover have "py_in v xs \<longrightarrow> dict_set key (VDict sub1) d = d"
      using s(3) x sub(1) by (simp add: dict_set_same)
    ultimately show ?thesis by blast
  qed
qed

text \<open>
  Claim C7. When the target path leads through dicts to a list, a write in appending mode
  succeeds without a conflict and leaves the list as it was if it has an element equal to
  the value, and with the value appended after the old elements otherwise; a second write
  of the same value changes nothing. A value that was not in the list is in it exactly once
  afterwards.
\<close>

theorem append_unique_twice:
  assumes "get_fields (VDict d) keys = VList xs"
  shows "\<exists>d1. resolve_keys True (Inr v) keys d = (d1, [], None) \<and>
              resolve_keys True (Inr v) keys d1 = (d1, [], None) \<and>
              get_fields (VDict d1) keys = VList (if py_in v xs then xs else xs @ [v]) \<and>
              (\<not> py_in v xs \<longrightarrow> length (filter (\<lambda>x. py_eq x v) (xs @ [v])) = 1)"
proof -
  let ?ys = "if py_in v xs then xs else xs @ [v]"
  from resolve_keys_append_list [OF assms, of v] obtain d1 where
    d1: "resolve_keys True (Inr v) keys d = (d1, [], None)"
        "get_fields (VDict d1) keys = VList ?ys"
    by blast
  have "py_in v ?ys"
    by (simp add: py_in_appended)
  with resolve_keys_append_list [OF d1(2), of v] have "resolve_keys True (Inr v) keys d1 = (d1, [], None)"
    by auto
  moreover have "length (filter (\<lambda>x. py_eq x v) (xs @ [v])) = 1" if "\<not> py_in v xs"
    using that by (simp add: py_in_filter py_eq_refl)
  ultimately show ?thesis
    using d1 by blast
qed

theorem append_unique_twice_witness:
  "resolve_keys True (Inr (VStr ''X'')) [''a'', ''t'']
     [(''a'', VDict [(''t'', VList [VStr ''old''])])] =
     ([(''a'', VDict [(''t'', VList [VStr ''old'', VStr ''X''])])], [], None) \<and>
   resolve_keys True (Inr (VStr ''X'')) [''a'', ''t'']
     [(''a'', VDict [(''t'', VList [VStr ''old'', VStr ''X''])])] =
     ([(''a'', VDict [(''t'', VList [VStr ''old'', VStr ''X''])])], [], None)"
  using append_unique_twice [of "[(''a'', VDict [(''t'', VList [VStr ''old''])])]"
      "[''a'', ''t'']" "[VStr ''old'']" "VStr ''X''"]
  by (simp add: resolve_keys.simps py_in_def)

text \<open>
  The same on the store, for a replacement that is no object (a string, a number, a bool or
  \<^verbatim>\<open>None\<close>) and a target that resolves through dicts to a list: the comparison with
  the elements raises nothing, the first write appends the value unless an element equals
  it, and the second write leaves the store as the first one left it.
\<close>

lemma rich_compare_bool_scalar:
  "\<forall>a. v \<noteq> PRef a \<Longrightarrow> rich_compare_bool (Suc n) h x v = rich_compare_bool (Suc n) [] x v \<and>
     (\<exists>b. rich_compare_bool (Suc n) h x v = Inr b)"
  by (cases x; cases v) auto

lemma list_contains_scalar:
  "\<forall>a. v \<noteq> PRef a \<Longrightarrow> list_contains (Suc n) h xs v = list_contains (Suc n) [] xs v \<and>
     (\<exists>b. list_contains (Suc n) h xs v = Inr b)"
proof (induction xs)
  case Nil
  show ?case by auto
next
  case (Cons x xs)
  note s = rich_compare_bool_scalar [OF Cons.prems, of n h x]
  from s have e: "rich_compare_bool (Suc n) h x v = rich_compare_bool (Suc n) [] x v"
    by (rule conjunct1)
  from s have "\<exists>b. rich_compare_bool (Suc n) h x v = Inr b"
    by (rule conjunct2)
  then obtain b where b: "rich_compare_bool (Suc n) h x v = Inr b"
    by (elim exE)
  with e have b': "rich_compare_bool (Suc n) [] x v = Inr b"
    by (simp only:)
  note i = Cons.IH [OF Cons.prems]
  from i have ie: "list_contains (Suc n) h xs v = list_contains (Suc n) [] xs v"
    by (rule conjunct1)
  from i have "\<exists>b. list_contains (Suc n) h xs v = Inr b"
    by (rule conjunct2)
  then obtain c where c: "list_contains (Suc n) h xs v = Inr c"
    by (elim exE)
  have 1: "list_contains (Suc n) h (x # xs) v = list_contains (Suc n) [] (x # xs) v"
    by (simp only: list_contains.simps b b' ie)
  have 2: "list_contains (Suc n) h (x # xs) v = Inr (b \<or> c)"
    by (cases b) (simp_all only: list_contains.simps b c sum.case bool.case simp_thms)
  from 1 2 show ?case by blast
qed

lemma list_contains_snoc:
  "list_contains (Suc n) h xs v = Inr False \<Longrightarrow> list_contains (Suc n) h (xs @ [v]) v = Inr True"
proof (induction xs)
  case Nil
  show ?case by simp
next
  case (Cons x xs)
  from Cons.prems have "rich_compare_bool (Suc n) h x v = Inr False"
    and "list_contains (Suc n) h xs v = Inr False"
    by (auto simp del: rich_compare_bool.simps split: sum.splits bool.splits)
  with Cons.IH show ?case
    by (simp del: rich_compare_bool.simps)
qed

lemma append_unique_twice_in_store:
  assumes "get_fields_in h (PRef dict) keys = PRef r" and "deref h r = Some (OList xs)"
    and "keys \<noteq> []" and "\<forall>a. v \<noteq> PRef a"
  shows "\<exists>h1 b. list_contains (Suc n) h xs v = Inr b \<and>
           resolve_keys_in (Suc n) True (Inr v) keys h dict = (h1, [], None) \<and>
           h1 = (if b then h else store h r (OList (xs @ [v]))) \<and>
           resolve_keys_in (Suc n) True (Inr v) keys h1 dict = (h1, [], None)"
  using assms(1,3)
proof (induction keys arbitrary: dict)
  case Nil
  then show ?case by simp
next
  case (Cons key keys)
  from list_contains_scalar [OF assms(4), of n h xs] obtain b where
    b: "list_contains (Suc n) h xs v = Inr b" by blast
  define h1 where "h1 = (if b then h else store h r (OList (xs @ [v])))"
  have c1: "list_contains (Suc n) h1 (if b then xs else xs @ [v]) v = Inr True"
  proof (cases b)
    case True
    with b show ?thesis by (simp add: h1_def)
  next
    case False
    with b have "list_contains (Suc n) h (xs @ [v]) v = Inr True"
      by (simp add: list_contains_snoc)
    with False list_contains_scalar [OF assms(4), of n h "xs @ [v]"]
      list_contains_scalar [OF assms(4), of n h1 "xs @ [v]"]
    show ?thesis by simp
  qed
  have r1: "deref h1 r = Some (OList (if b then xs else xs @ [v]))"
    using assms(2) by (auto simp: h1_def deref_store dest: deref_less)
  have g: "grows h h1"
    using assms(2) by (simp add: h1_def grows_refl grows_store_snoc)
  from Cons.prems(1) obtain d w where d: "deref h dict = Some (ODict d)"
    and w: "map_of d key = Some w" and p: "get_fields_in h w keys = PRef r"
    by (auto split: option.splits obj.splits)
  from grows_deref_dict [OF g d] w obtain d1 where d1: "deref h1 dict = Some (ODict d1)"
    and w1: "map_of d1 key = Some w" by blast
  show ?case
  proof (cases "keys = []")
    case True
    with p have wr: "w = PRef r" by simp
    have "resolve_keys_in (Suc n) True (Inr v) (key # keys) h dict = (h1, [], None)"
      using resolve_keys_in_list [OF d w [unfolded wr] assms(2), of "Suc n" "Inr v" keys] b True
      by (cases b) (simp_all add: h1_def)
    moreover have "resolve_keys_in (Suc n) True (Inr v) (key # keys) h1 dict = (h1, [], None)"
      using resolve_keys_in_list [OF d1 w1 [unfolded wr] r1, of "Suc n" "Inr v" keys] c1 True
      by simp
    ultimately show ?thesis using b by (auto simp: h1_def)
  next
    case False
    with p obtain a sub where wa: "w = PRef a" and a: "deref h a = Some (ODict sub)"
      by (cases keys; cases w) (auto split: option.splits obj.splits)
    from grows_deref_dict [OF g a] obtain sub1 where a1: "deref h1 a = Some (ODict sub1)"
      by blast
    from Cons.IH [OF p [unfolded wa] False] b have
      i: "resolve_keys_in (Suc n) True (Inr v) keys h a = (h1, [], None)"
         "resolve_keys_in (Suc n) True (Inr v) keys h1 a = (h1, [], None)"
      by (auto simp: h1_def)
    have "resolve_keys_in (Suc n) True (Inr v) (key # keys) h dict = (h1, [], None)"
      using resolve_keys_in_dict [OF d w [unfolded wa] a] i by simp
    moreover have "resolve_keys_in (Suc n) True (Inr v) (key # keys) h1 dict = (h1, [], None)"
      using resolve_keys_in_dict [OF d1 w1 [unfolded wa] a1] i by simp
    ultimately show ?thesis using b by (auto simp: h1_def)
  qed
qed

section \<open>Conflicts of a rule application\<close>

lemma resolve_mappings_single_conflicts:
  assumes "resolve_mappings limit hs db vm appending [(s, t)] h event = (h', conflicts, None)"
  shows "conflicts =
           (if truthy h (get_dotted_field_value_in h event s) \<and>
               (case hs_scan hs db (get_dotted_field_value_in h event s) of
                  Inl e \<Rightarrow> False
                | Inr result \<Rightarrow> result \<noteq> [])
            then conflict_keys appending (split_from ''.'' [] t) h event else [])"
proof (cases "truthy h (get_dotted_field_value_in h event s)")
  case False
  with assms show ?thesis by (simp add: resolve_mappings_skip)
next
  case True
  show ?thesis
  proof (cases "hs_scan hs db (get_dotted_field_value_in h event s)")
    case (Inl e)
    with True assms show ?thesis by (simp add: resolve_mappings_scan_error)
  next
    case (Inr result)
    show ?thesis
    proof (cases "result = []")
      case True
      with Inr assms show ?thesis by (simp add: resolve_mappings_skip)
    next
      case False
      obtain h1 cs1 err1 where
        w: "resolve_keys_in limit appending
              (case map_of vm (Min (set result)) of None \<Rightarrow> Inl KeyError | Some v \<Rightarrow> Inr v)
              (split_from ''.'' [] t) h event = (h1, cs1, err1)"
        using prod_cases3 by blast
      from assms have "err1 = None \<and> cs1 = conflicts"
        unfolding resolve_mappings_match [OF True Inr False] w
        by (cases err1) simp_all
      with w have "conflicts = conflict_keys appending (split_from ''.'' [] t) h event"
        by (auto dest: resolve_keys_in_conflicts)
      with True Inr False show ?thesis by simp
    qed
  qed
qed

lemma resolve_mappings_split:
  assumes "resolve_mappings limit hs db vm appending (fm1 @ (s, t) # fm2) h event =
             (h', conflicts, None)"
  shows "\<exists>h1 conflicts1 h2 conflicts2.
           resolve_mappings limit hs db vm appending fm1 h event = (h1, conflicts1, None) \<and>
           resolve_mappings limit hs db vm appending [(s, t)] h1 event =
             (h2,
              if truthy h1 (get_dotted_field_value_in h1 event s) \<and>
                 (case hs_scan hs db (get_dotted_field_value_in h1 event s) of
                    Inl e \<Rightarrow> False
                  | Inr result \<Rightarrow> result \<noteq> [])
              then conflict_keys appending (split_from ''.'' [] t) h1 event else [],
              None) \<and>
           resolve_mappings limit hs db vm appending fm2 h2 event = (h', conflicts2, None) \<and>
           conflicts =
             conflicts1 @
             (if truthy h1 (get_dotted_field_value_in h1 event s) \<and>
                 (case hs_scan hs db (get_dotted_field_value_in h1 event s) of
                    Inl e \<Rightarrow> False
                  | Inr result \<Rightarrow> result \<noteq> [])
              then conflict_keys appending (split_from ''.'' [] t) h1 event else []) @
             conflicts2"
proof -
  obtain h1 cs1 err1 where
    a: "resolve_mappings limit hs db vm appending fm1 h event = (h1, cs1, err1)"
    using prod_cases3 by blast
  obtain h2 cs err2 where
    b: "resolve_mappings limit hs db vm appending [(s, t)] h1 event = (h2, cs, err2)"
    using prod_cases3 by blast
  obtain h3 cs2 err3 where
    c: "resolve_mappings limit hs db vm appending fm2 h2 event = (h3, cs2, err3)"
    using prod_cases3 by blast
  have s: "resolve_mappings limit hs db vm appending ((s, t) # fm2) h1 event =
          (case resolve_mappings limit hs db vm appending [(s, t)] h1 event of
             (h2, conflicts2, Some e) \<Rightarrow> (h2, conflicts2, Some e)
           | (h2, conflicts2, None) \<Rightarrow>
               (case resolve_mappings limit hs db vm appending fm2 h2 event of
                  (h3, conflicts3, err) \<Rightarrow> (h3, conflicts2 @ conflicts3, err)))"
    using resolve_mappings_append [of limit hs db vm appending "[(s, t)]" fm2 h1 event]
    by simp
  have e: "err1 = None \<and> err2 = None \<and> err3 = None \<and> h3 = h' \<and> conflicts = cs1 @ cs @ cs2"
    using assms unfolding resolve_mappings_append [of _ _ _ _ _ fm1] a
    by (cases err1; cases err2) (simp_all add: s b c)
  with b have "resolve_mappings limit hs db vm appending [(s, t)] h1 event = (h2, cs, None)"
    by simp
  from resolve_mappings_single_conflicts [OF this] this a c e show ?thesis
    by (intro exI [of _ h1] exI [of _ cs1] exI [of _ h2] exI [of _ cs2]) simp
qed

text \<open>
  Claim C3, as the code has it. When the database is there, \<^verbatim>\<open>_apply_rules\<close> ends
  in the exception that ended the loop over the field mappings, if there was one, and
  otherwise raises one \<^verbatim>\<open>DuplicationError\<close> with the collected conflicts exactly
  when there are any. However the mappings are cut in two, the second part runs on the
  store the first part left, whatever conflicts the first part met, unless an exception
  ended it. When the loop runs to its end, the conflicts are, mapping by mapping in the
  order of the mappings, the conflicting keys of the target path of each mapping whose
  source matched, read off the store as the mappings before it left it: the keys at which
  the conflicts were met, not the dotted paths. The store only grows: no entry of a dict is
  removed or replaced and no element of a list is removed, also when an exception ends the
  application. And what a mapping without conflicts wrote under its absent target, when the
  rule does not append, the event still holds when the application has ended.
\<close>

theorem conflicts_raised_once:
  "(get_hyperscan_database hs self fs rule = Inr ((db, vm), self', fs') \<longrightarrow>
    GenericResolver_apply_rules limit hs self fs h event rule =
      (case resolve_mappings limit hs db vm (append_to_list rule) (field_mapping rule) h event of
         (h', conflicts, Some e) \<Rightarrow> (Some e, h', self', fs')
       | (h', conflicts, None) \<Rightarrow>
           (if conflicts = [] then None else Some (DuplicationError (name self) conflicts),
            h', self', fs'))) \<and>
   resolve_mappings limit hs db vm appending (fm @ fm') h event =
     (case resolve_mappings limit hs db vm appending fm h event of
        (h1, conflicts1, Some e) \<Rightarrow> (h1, conflicts1, Some e)
      | (h1, conflicts1, None) \<Rightarrow>
          (case resolve_mappings limit hs db vm appending fm' h1 event of
             (h2, conflicts2, err) \<Rightarrow> (h2, conflicts1 @ conflicts2, err))) \<and>
   (resolve_mappings limit hs db vm appending (fm1 @ (resolve_source, resolve_target) # fm2)
      h event = (h', conflicts, None) \<longrightarrow>
    (\<exists>h1 conflicts1 h2 conflicts2.
       resolve_mappings limit hs db vm appending fm1 h event = (h1, conflicts1, None) \<and>
       resolve_mappings limit hs db vm appending [(resolve_source, resolve_target)] h1 event =
         (h2,
          if truthy h1 (get_dotted_field_value_in h1 event resolve_source) \<and>
             (case hs_scan hs db (get_dotted_field_value_in h1 event resolve_source) of
                Inl e \<Rightarrow> False
              | Inr result \<Rightarrow> result \<noteq> [])
          then conflict_keys appending (split_from ''.'' [] resolve_target) h1 event else [],
          None) \<and>
       resolve_mappings limit hs db vm appending fm2 h2 event = (h', conflicts2, None) \<and>
       conflicts =
         conflicts1 @
         (if truthy h1 (get_dotted_field_value_in h1 event resolve_source) \<and>
             (case hs_scan hs db (get_dotted_field_value_in h1 event resolve_source) of
                Inl e \<Rightarrow> False
              | Inr result \<Rightarrow> result \<noteq> [])
          then conflict_keys appending (split_from ''.'' [] resolve_target) h1 event else []) @
         conflicts2)) \<and>
   grows h (fst (resolve_mappings limit hs db vm appending fm h event)) \<and>
   (resolve_mappings limit hs db vm False fm3 h event = (h3, conflicts3, None) \<and>
    deref h event = Some (ODict d) \<and>
    truthy h3 (get_dotted_field_value_in h3 event s) \<and>
    hs_scan hs db (get_dotted_field_value_in h3 event s) = Inr result \<and>
    result \<noteq> [] \<and> map_of vm (Min (set result)) = Some v \<and> v \<noteq> PNone \<and>
    get_fields_in h3 (PRef event) (split_from ''.'' [] t) = PNone \<and>
    conflict_keys False (split_from ''.'' [] t) h3 event = [] \<longrightarrow>
    get_dotted_field_value_in
      (fst (resolve_mappings limit hs db vm False (fm3 @ (s, t) # fm4) h event)) event t = v)"
proof (intro conjI impI)
  assume "get_hyperscan_database hs self fs rule = Inr ((db, vm), self', fs')"
  then show "GenericResolver_apply_rules limit hs self fs h event rule =
      (case resolve_mappings limit hs db vm (append_to_list rule) (field_mapping rule) h event of
         (h', conflicts, Some e) \<Rightarrow> (Some e, h', self', fs')
       | (h', conflicts, None) \<Rightarrow>
           (if conflicts = [] then None else Some (DuplicationError (name self) conflicts),
            h', self', fs'))"
    by (simp add: GenericResolver_apply_rules_def split: prod.splits option.splits)
next
  show "resolve_mappings limit hs db vm appending (fm @ fm') h event =
     (case resolve_mappings limit hs db vm appending fm h event of
        (h1, conflicts1, Some e) \<Rightarrow> (h1, conflicts1, Some e)
      | (h1, conflicts1, None) \<Rightarrow>
          (case resolve_mappings limit hs db vm appending fm' h1 event of
             (h2, conflicts2, err) \<Rightarrow> (h2, conflicts1 @ conflicts2, err)))"
    by (rule resolve_mappings_append)
next
  assume "resolve_mappings limit hs db vm appending (fm1 @ (resolve_source, resolve_target) # fm2)
      h event = (h', conflicts, None)"
  then show "\<exists>h1 conflicts1 h2 conflicts2.
       resolve_mappings limit hs db vm appending fm1 h event = (h1, conflicts1, None) \<and>
       resolve_mappings limit hs db vm appending [(resolve_source, resolve_target)] h1 event =
         (h2,
          if truthy h1 (get_dotted_field_value_in h1 event resolve_source) \<and>
             (case hs_scan hs db (get_dotted_field_value_in h1 event resolve_source) of
                Inl e \<Rightarrow> False
              | Inr result \<Rightarrow> result \<noteq> [])
          then conflict_keys appending (split_from ''.'' [] resolve_target) h1 event else [],
          None) \<and>
       resolve_mappings limit hs db vm appending fm2 h2 event = (h', conflicts2, None) \<and>
       conflicts =
         conflicts1 @
         (if truthy h1 (get_dotted_field_value_in h1 event resolve_source) \<and>
             (case hs_scan hs db (get_dotted_field_value_in h1 event resolve_source) of
                Inl e \<Rightarrow> False
              | Inr result \<Rightarrow> result \<noteq> [])
          then conflict_keys appending (split_from ''.'' [] resolve_target) h1 event else []) @
         conflicts2"
    by (rule resolve_mappings_split)
next
  show "grows h (fst (resolve_mappings limit hs db vm appending fm h event))"
    by (rule resolve_mappings_grows)
next
  assume a: "resolve_mappings limit hs db vm False fm3 h event = (h3, conflicts3, None) \<and>
    deref h event = Some (ODict d) \<and>
    truthy h3 (get_dotted_field_value_in h3 event s) \<and>
    hs_scan hs db (get_dotted_field_value_in h3 event s) = Inr result \<and>
    result \<noteq> [] \<and> map_of vm (Min (set result)) = Some v \<and> v \<noteq> PNone \<and>
    get_fields_in h3 (PRef event) (split_from ''.'' [] t) = PNone \<and>
    conflict_keys False (split_from ''.'' [] t) h3 event = []"
  then have p1: "resolve_mappings limit hs db vm False fm3 h event = (h3, conflicts3, None)"
    and p2: "deref h event = Some (ODict d)"
    and p3: "truthy h3 (get_dotted_field_value_in h3 event s)"
    and p4: "hs_scan hs db (get_dotted_field_value_in h3 event s) = Inr result"
    and p5: "result \<noteq> []"
    and p6: "map_of vm (Min (set result)) = Some v"
    and p7: "get_fields_in h3 (PRef event) (split_from ''.'' [] t) = PNone"
    and p8: "conflict_keys False (split_from ''.'' [] t) h3 event = []"
    and p9: "v \<noteq> PNone"
    by simp_all
  from resolve_mappings_overwrite_writes [OF p1 p2 p3 p4 p5 p6 p7 p8, where ?fm2.0 = fm4] p9
  show "get_dotted_field_value_in
      (fst (resolve_mappings limit hs db vm False (fm3 @ (s, t) # fm4) h event)) event t = v"
    by (auto simp: get_dotted_field_value_in_def)
qed

text \<open>
  Three mappings on an event where \<^verbatim>\<open>t1\<close> and \<^verbatim>\<open>t2.u\<close> hold strings:
  the error names \<^verbatim>\<open>t1\<close> and \<^verbatim>\<open>u\<close>, and the third mapping, which comes
  after both conflicts, has written \<^verbatim>\<open>t3\<close>.
\<close>

theorem conflicts_raised_once_witness:
  "GenericResolver_apply_rules 10 (stub_hs [0]) (GenericResolver_init ''r'' ''/dbs'' ''/m'')
     \<lparr>dirs = [], files = []\<rparr>
     [ODict [(''s1'', PStr ''abc''), (''s2'', PStr ''abc''), (''t1'', PStr ''old1''),
             (''t2'', PRef 1)],
      ODict [(''u'', PStr ''old2'')]] 0
     \<lparr>field_mapping = [(''s1'', ''t1''), (''s2'', ''t2.u''), (''s1'', ''t3'')],
      resolve_list = [(''abc'', PStr ''X'')], file_name = ''rules.json'',
      append_to_list = False, store_db_persistent = False\<rparr> =
   (Some (DuplicationError ''r'' [''t1'', ''u'']),
    [ODict [(''s1'', PStr ''abc''), (''s2'', PStr ''abc''), (''t1'', PStr ''old1''),
            (''t2'', PRef 1), (''t3'', PStr ''X'')],
     ODict [(''u'', PStr ''old2'')]],
    \<lparr>name = ''r'', hyperscan_databases = [(''rules.json'', (), [(0, PStr ''X'')])],
     hyperscan_database_path = ''/dbs''\<rparr>,
    \<lparr>dirs = [], files = []\<rparr>) \<and>
   conflict_keys False [''t2'', ''u'']
     [ODict [(''s1'', PStr ''abc''), (''s2'', PStr ''abc''), (''t1'', PStr ''old1''),
             (''t2'', PRef 1)],
      ODict [(''u'', PStr ''old2'')]] 0 = [''u''] \<and>
   get_dotted_field_value_in
     (fst (resolve_mappings 10 (stub_hs [0]) () [(0, PStr ''X'')] False
        [(''s1'', ''t1''), (''s2'', ''t2.u''), (''s1'', ''t3'')]
        [ODict [(''s1'', PStr ''abc''), (''s2'', PStr ''abc''), (''t1'', PStr ''old1''),
                (''t2'', PRef 1)],
         ODict [(''u'', PStr ''old2'')]] 0)) 0 ''t3'' = PStr ''X''"
  using conflicts_raised_once [where limit = 10 and hs = "stub_hs [0]"
      and self = "GenericResolver_init ''r'' ''/dbs'' ''/m''"
      and fs = "\<lparr>dirs = [], files = []\<rparr>"
      and rule = "\<lparr>field_mapping = [(''s1'', ''t1''), (''s2'', ''t2.u''), (''s1'', ''t3'')],
        resolve_list = [(''abc'', PStr ''X'')], file_name = ''rules.json'',
        append_to_list = False, store_db_persistent = False\<rparr>"
      and db = "()" and vm = "[(0, PStr ''X'')]"
      and self' = "\<lparr>name = ''r'', hyperscan_databases = [(''rules.json'', (), [(0, PStr ''X'')])],
        hyperscan_database_path = ''/dbs''\<rparr>"
      and fs' = "\<lparr>dirs = [], files = []\<rparr>"
      and h = "[ODict [(''s1'', PStr ''abc''), (''s2'', PStr ''abc''), (''t1'', PStr ''old1''),
                       (''t2'', PRef 1)],
                ODict [(''u'', PStr ''old2'')]]"
      and event = 0 and appending = False
      and fm = "[(''s1'', ''t1'')]" and fm' = "[(''s2'', ''t2.u''), (''s1'', ''t3'')]"
      and ?fm1.0 = "[(''s1'', ''t1'')]" and resolve_source = "''s2''"
      and resolve_target = "''t2.u''" and ?fm2.0 = "[(''s1'', ''t3'')]"
      and h' = "[ODict [(''s1'', PStr ''abc''), (''s2'', PStr ''abc''), (''t1'', PStr ''old1''),
                        (''t2'', PRef 1), (''t3'', PStr ''X'')],
                 ODict [(''u'', PStr ''old2'')]]"
      and conflicts = "[''t1'', ''u'']"
      and ?fm3.0 = "[(''s1'', ''t1''), (''s2'', ''t2.u'')]"
      and ?h3.0 = "[ODict [(''s1'', PStr ''abc''), (''s2'', PStr ''abc''), (''t1'', PStr ''old1''),
                          (''t2'', PRef 1)],
                   ODict [(''u'', PStr ''old2'')]]"
      and ?conflicts3.0 = "[''t1'', ''u'']"
      and d = "[(''s1'', PStr ''abc''), (''s2'', PStr ''abc''), (''t1'', PStr ''old1''),
                (''t2'', PRef 1)]"
      and s = "''s1''" and t = "''t3''" and result = "[0]" and v = "PStr ''X''"
      and ?fm4.0 = "[]"]
  by (simp add: get_hyperscan_database_def load_database_def create_database_def db_file_def
      GenericResolver_init_def stub_hs_def get_dotted_field_value_in_def resolve_mappings.simps
      resolve_keys_in.simps chosen_value_def deref_def store_def alloc_def is_conflict_def
      Let_def)

text \<open>
  Claim C3 as worded does not hold: for the target \<^verbatim>\<open>a.b\<close> whose last key holds
  a string the error names \<^verbatim>\<open>b\<close>; and when a later mapping ends in another
  exception, the conflict met before is never reported.
\<close>

theorem duplication_error_names_path_counterexample:
  "GenericResolver_apply_rules 10 (stub_hs [0]) (GenericResolver_init ''r'' ''/dbs'' ''/m'')
     \<lparr>dirs = [], files = []\<rparr>
     [ODict [(''src'', PStr ''abc''), (''a'', PRef 1)], ODict [(''b'', PStr ''old'')]] 0
     \<lparr>field_mapping = [(''src'', ''a.b'')],
      resolve_list = [(''abc'', PStr ''X'')], file_name = ''rules.json'',
      append_to_list = False, store_db_persistent = False\<rparr> =
   (Some (DuplicationError ''r'' [''b'']),
    [ODict [(''src'', PStr ''abc''), (''a'', PRef 1)], ODict [(''b'', PStr ''old'')]],
    \<lparr>name = ''r'', hyperscan_databases = [(''rules.json'', (), [(0, PStr ''X'')])],
     hyperscan_database_path = ''/dbs''\<rparr>,
    \<lparr>dirs = [], files = []\<rparr>) \<and>
   ''a.b'' \<notin> set [''b''] \<and>
   GenericResolver_apply_rules 10 (stub_hs [0]) (GenericResolver_init ''r'' ''/dbs'' ''/m'')
     \<lparr>dirs = [], files = []\<rparr>
     [ODict [(''s1'', PStr ''abc''), (''s2'', PStr ''abc''), (''t1'', PStr ''old''),
             (''key'', PStr ''k'')]] 0
     \<lparr>field_mapping = [(''s1'', ''t1''), (''s2'', ''t2'')],
      resolve_list = [(''abc'', PStr ''X'')], file_name = ''rules.json'',
      append_to_list = True, store_db_persistent = False\<rparr> =
   (Some AttributeError,
    [ODict [(''s1'', PStr ''abc''), (''s2'', PStr ''abc''), (''t1'', PStr ''old''),
            (''key'', PStr ''k''), (''t2'', PStr ''k'')]],
    \<lparr>name = ''r'', hyperscan_databases = [(''rules.json'', (), [(0, PStr ''X'')])],
     hyperscan_database_path = ''/dbs''\<rparr>,
    \<lparr>dirs = [], files = []\<rparr>)"
  by (simp add: GenericResolver_apply_rules_def get_hyperscan_database_def load_database_def
      create_database_def db_file_def GenericResolver_init_def stub_hs_def
      get_dotted_field_value_in_def resolve_mappings.simps resolve_keys_in.simps
      chosen_value_def deref_def store_def alloc_def Let_def)

section \<open>Where the code departs from its contract\<close>

text \<open>
  What does hold of a conflict: when the loop has reached the last key of the target path
  and that key holds the offending value, the write leaves the store as it was and records
  that key. And an append to an absent last key makes a new one-element list when the dict
  has no entry named \<^verbatim>\<open>key\<close>.
\<close>

lemma conflict_at_last_key_unchanged:
  "deref h dict = Some (ODict d) \<Longrightarrow> map_of d key = Some x \<Longrightarrow> is_conflict appending h x \<Longrightarrow>
   resolve_keys_in limit appending value [key] h dict = (h, [key], None)"
  by (simp add: resolve_keys_in_conflict)

lemma append_to_absent_key_without_literal_key:
  "deref h dict = Some (ODict d) \<Longrightarrow> map_of d key = None \<Longrightarrow> map_of d ''key'' = None \<Longrightarrow>
   resolve_keys_in limit True (Inr v) [key] h dict =
     (store (store (h @ [OList []]) dict (ODict (dict_set key (PRef (length h)) d)))
        (length h) (OList [v]), [], None)"
  by (simp add: resolve_keys_in_missing_last_append)

text \<open>
  Claim C4 says that a write which meets a conflict leaves the document alone: no key is
  created or changed. The loop has no \<^verbatim>\<open>break\<close> after recording a conflict, so
  with the scalar under \<^verbatim>\<open>a\<close> and the target \<^verbatim>\<open>a.b.c\<close> it records
  \<^verbatim>\<open>a\<close> and then resolves \<^verbatim>\<open>b\<close> and \<^verbatim>\<open>c\<close> against the same dict:
  the event gets a new key \<^verbatim>\<open>b\<close> holding \<^verbatim>\<open>{'c': 'X'}\<close>.
\<close>

theorem conflict_before_last_key_writes:
  "GenericResolver_apply_rules 10 (stub_hs [0]) (GenericResolver_init ''r'' ''/dbs'' ''/m'')
     \<lparr>dirs = [], files = []\<rparr>
     [ODict [(''src'', PStr ''abc''), (''a'', PInt 1)]] 0
     \<lparr>field_mapping = [(''src'', ''a.b.c'')],
      resolve_list = [(''abc'', PStr ''X'')], file_name = ''rules.json'',
      append_to_list = False, store_db_persistent = False\<rparr> =
   (Some (DuplicationError ''r'' [''a'']),
    [ODict [(''src'', PStr ''abc''), (''a'', PInt 1), (''b'', PRef 1)],
     ODict [(''c'', PStr ''X'')]],
    \<lparr>name = ''r'', hyperscan_databases = [(''rules.json'', (), [(0, PStr ''X'')])],
     hyperscan_database_path = ''/dbs''\<rparr>,
    \<lparr>dirs = [], files = []\<rparr>)"
  by (simp add: GenericResolver_apply_rules_def get_hyperscan_database_def load_database_def
      create_database_def db_file_def GenericResolver_init_def stub_hs_def
      get_dotted_field_value_in_def resolve_mappings.simps resolve_keys_in.simps
      chosen_value_def deref_def store_def alloc_def Let_def)

text \<open>
  Claim C5 says that a template lookup whose target path does not exist leaves the event
  unchanged and raises nothing, also when an intermediate component of the target holds a
  value that is no mapping. With the int \<^verbatim>\<open>5\<close> under \<^verbatim>\<open>a\<close> and the target
  \<^verbatim>\<open>a.b\<close>, \<^verbatim>\<open>_field_exists\<close> evaluates \<^verbatim>\<open>'b' in 5\<close> and the call ends
  in a \<^verbatim>\<open>TypeError\<close>.
\<close>

theorem field_exists_raises:
  "TemplateReplacer_init ''t'' ''t.yml''
     \<lparr>pat_target_field = ''a.b'', pat_fields = [''k'', ''j''], pat_delimiter = ''-'',
      pat_allowed_delimiter_field = ''k''\<rparr>
     [(''foo-bar'', VStr ''Z'')] =
   Inr \<lparr>tr_name = ''t'', tr_target_field = ''a.b'', tr_target_field_split = [''a'', ''b''],
        tr_fields = [''k'', ''j''],
        tr_mapping = VDict [(''foo'', VDict [(''bar'', VStr ''Z'')])]\<rparr> \<and>
   TemplateReplacer_apply_rules str_scalar
     \<lparr>tr_name = ''t'', tr_target_field = ''a.b'', tr_target_field_split = [''a'', ''b''],
      tr_fields = [''k'', ''j''],
      tr_mapping = VDict [(''foo'', VDict [(''bar'', VStr ''Z'')])]\<rparr>
     [(''k'', VStr ''foo''), (''j'', VStr ''bar''), (''a'', VInt 5)] = Inl TypeError"
  by (simp add: TemplateReplacer_init_def add_entry_def py_split_def recombine_def
      slice_to_def slice_from_def slice_bound_def TemplateReplacer_apply_rules_def
      get_dotted_field_value_def str_scalar_def field_exists_def)

text \<open>
  Claim C6 says that appending to an absent target sets it to a new list holding just the
  value, also when the containing dict has an entry named \<^verbatim>\<open>key\<close>. The source
  starts from \<^verbatim>\<open>dict_.get('key', [])\<close> with the literal name, so with
  \<^verbatim>\<open>['old']\<close> under \<^verbatim>\<open>key\<close> the target is bound to that very list,
  which becomes \<^verbatim>\<open>['old', 'X']\<close> under both keys.
\<close>

theorem append_to_absent_key_reads_literal_key:
  "GenericResolver_apply_rules 10 (stub_hs [0]) (GenericResolver_init ''r'' ''/dbs'' ''/m'')
     \<lparr>dirs = [], files = []\<rparr>
     [ODict [(''src'', PStr ''abc''), (''key'', PRef 1)], OList [PStr ''old'']] 0
     \<lparr>field_mapping = [(''src'', ''target'')],
      resolve_list = [(''abc'', PStr ''X'')], file_name = ''rules.json'',
      append_to_list = True, store_db_persistent = False\<rparr> =
   (None,
    [ODict [(''src'', PStr ''abc''), (''key'', PRef 1), (''target'', PRef 1)],
     OList [PStr ''old'', PStr ''X'']],
    \<lparr>name = ''r'', hyperscan_databases = [(''rules.json'', (), [(0, PStr ''X'')])],
     hyperscan_database_path = ''/dbs''\<rparr>,
    \<lparr>dirs = [], files = []\<rparr>)"
  by (simp add: GenericResolver_apply_rules_def get_hyperscan_database_def load_database_def
      create_database_def db_file_def GenericResolver_init_def stub_hs_def
      get_dotted_field_value_in_def resolve_mappings.simps resolve_keys_in.simps
      chosen_value_def deref_def store_def alloc_def Let_def)

section \<open>The template index\<close>

lemma set_dict_set: "set (dict_set k v d) \<subseteq> insert (k, v) (set d)"
  by (induction d) (auto split: if_splits)

lemma dict_set_not_Nil: "dict_set k v d \<noteq> []"
  by (cases d) (auto split: if_splits)

lemma trie_depth_dict_set:
  assumes "trie_depth (Suc n) (VDict d)" and "trie_depth n child"
    and "0 < n \<longrightarrow> py_truthy child"
  shows "trie_depth (Suc n) (VDict (dict_set k child d))"
  using assms set_dict_set [of k child d]
  by (auto simp: list_all_iff)

lemma trie_depth_child:
  assumes "trie_depth (Suc n) (VDict d)" and "map_of d k = Some child"
  shows "trie_depth n child" and "0 < n \<Longrightarrow> py_truthy child"
  using assms map_of_SomeD [of d k child]
  by (auto simp: list_all_iff)

lemma get_keys_empty_dict: "ks \<noteq> [] \<Longrightarrow> get_keys (VDict []) ks = None"
  by (cases ks) simp_all

lemma insert_keys_last:
  "insert_keys n idx [k] v (VDict d) = Inr (VDict (dict_set k v d))" if "\<not> int idx < int n - 1"
  using that by simp

lemma insert_keys_trie:
  assumes "trie_depth (length ks) node" and "ks \<noteq> []" and "idx + length ks = n"
  shows "\<exists>node'. insert_keys n idx ks v node = Inr node' \<and>
           trie_depth (length ks) node' \<and> py_truthy node' \<and>
           get_keys node' ks = Some v \<and>
           (\<forall>ks'. length ks' = length ks \<and> ks' \<noteq> ks \<longrightarrow> get_keys node' ks' = get_keys node ks')"
  using assms
proof (induction ks arbitrary: idx node)
  case Nil
  then show ?case by simp
next
  case (Cons k ks)
  from Cons.prems(1) obtain d where d: "node = VDict d"
    by (cases node) auto
  show ?case
  proof (cases "ks = []")
    case True
    with Cons.prems(3) have last: "\<not> int idx < int n - 1"
      by auto
    have ins: "insert_keys n idx (k # ks) v node = Inr (VDict (dict_set k v d))"
      using True d last by simp
    have other: "get_keys (VDict (dict_set k v d)) ks' = get_keys node ks'"
      if "length ks' = length (k # ks)" "ks' \<noteq> k # ks" for ks'
    proof -
      from that True obtain k' where "ks' = [k']" "k' \<noteq> k"
        by (cases ks'; cases "tl ks'") auto
      then show ?thesis
        using d by (simp add: map_of_dict_set)
    qed
    have "trie_depth (length (k # ks)) (VDict (dict_set k v d))"
      using True Cons.prems(1) d trie_depth_dict_set [of 0 d v k] by simp
    moreover have "py_truthy (VDict (dict_set k v d))"
      by (simp add: dict_set_not_Nil)
    moreover have "get_keys (VDict (dict_set k v d)) (k # ks) = Some v"
      using True by (simp add: map_of_dict_set)
    ultimately show ?thesis
      using ins other by blast
  next
    case False
    then obtain m where m: "length ks = Suc m"
      by (cases ks) auto
    with Cons.prems(3) have inner: "int idx < int n - 1"
      by auto
    define child where
      "child = (case map_of d k of None \<Rightarrow> VDict []
                | Some c \<Rightarrow> if py_truthy c then c else VDict [])"
    have wd: "trie_depth (Suc (Suc m)) (VDict d)"
      using Cons.prems(1) d m by simp
    have child_eq: "map_of d k = Some c \<Longrightarrow> child = c" for c
      using trie_depth_child(2) [OF wd, of k c] by (simp add: child_def)
    have child_depth: "trie_depth (length ks) child"
    proof (cases "map_of d k")
      case None
      then show ?thesis by (simp add: child_def m)
    next
      case (Some c)
      with trie_depth_child(1) [OF wd Some] child_eq [OF Some] show ?thesis
        by (simp add: m)
    qed
    from Cons.IH [OF child_depth False, of "Suc idx"] Cons.prems(3) obtain child' where
      c: "insert_keys n (Suc idx) ks v child = Inr child'"
         "trie_depth (length ks) child'" "py_truthy child'"
         "get_keys child' ks = Some v"
         "\<forall>ks'. length ks' = length ks \<and> ks' \<noteq> ks \<longrightarrow> get_keys child' ks' = get_keys child ks'"
      by auto
    have ins: "insert_keys n idx (k # ks) v node = Inr (VDict (dict_set k child' d))"
      using d inner c(1) by (simp add: child_def)
    have depth: "trie_depth (length (k # ks)) (VDict (dict_set k child' d))"
      using trie_depth_dict_set [OF wd, of child' k] c(2,3) by (simp add: m)
    have truthy: "py_truthy (VDict (dict_set k child' d))"
      by (simp add: dict_set_not_Nil)
    have hit: "get_keys (VDict (dict_set k child' d)) (k # ks) = Some v"
      using c(4) by (simp add: map_of_dict_set)
    have other: "get_keys (VDict (dict_set k child' d)) ks' = get_keys node ks'"
      if "length ks' = length (k # ks)" "ks' \<noteq> k # ks" for ks'
    proof -
      from that(1) obtain k' rest where ks': "ks' = k' # rest" "length rest = length ks"
        by (cases ks') auto
      show ?thesis
      proof (cases "k' = k")
        case False
        then show ?thesis using ks' d by (simp add: map_of_dict_set)
      next
        case True
        with that(2) ks' have ne: "rest \<noteq> ks" by simp
        have "get_keys child' rest = get_keys child rest"
          using c(5) ks'(2) ne by simp
        moreover have "get_keys child rest =
                         (case map_of d k of None \<Rightarrow> None | Some c \<Rightarrow> get_keys c rest)"
        proof (cases "map_of d k")
          case None
          have "rest \<noteq> []" using ks'(2) m by auto
          with None show ?thesis by (simp add: child_def get_keys_empty_dict)
        next
          case (Some c)
          with child_eq [OF Some] show ?thesis by simp
        qed
        ultimately show ?thesis
          using True ks' d by (simp add: map_of_dict_set)
      qed
    qed
    from ins depth truthy hit other show ?thesis
      by blast
  qed
qed

lemma recombine_not_Nil: "recombine flds a split_key \<noteq> []"
  by (simp add: recombine_def Let_def)

lemma add_entry_Inr:
  assumes "add_entry nm path flds delim a (key, v) mapping = Inr mapping'"
  shows "delim \<noteq> []"
    and "length (recombine flds a (split_from delim [] key)) = length flds"
    and "insert_keys (length flds) 0 (recombine flds a (split_from delim [] key)) v mapping
           = Inr mapping'"
  using assms
  by (auto simp: add_entry_def py_split_def Let_def split: if_splits sum.splits exn.splits)

lemma add_entry_trie:
  assumes "trie_depth (length flds) mapping"
    and "add_entry nm path flds delim a (key, v) mapping = Inr mapping'"
  shows "trie_depth (length flds) mapping'"
    and "get_keys mapping' (recombine flds a (split_from delim [] key)) = Some v"
    and "length ks' = length flds \<Longrightarrow> ks' \<noteq> recombine flds a (split_from delim [] key) \<Longrightarrow>
         get_keys mapping' ks' = get_keys mapping ks'"
proof -
  let ?ks = "recombine flds a (split_from delim [] key)"
  note e = add_entry_Inr [OF assms(2)]
  from insert_keys_trie [of ?ks mapping 0 "length flds" v] assms(1) e(2) recombine_not_Nil
  obtain node' where
    n: "insert_keys (length flds) 0 ?ks v mapping = Inr node'"
       "trie_depth (length ?ks) node'" "get_keys node' ?ks = Some v"
       "\<forall>ks'. length ks' = length ?ks \<and> ks' \<noteq> ?ks \<longrightarrow> get_keys node' ks' = get_keys mapping ks'"
    by auto
  from n(1) e(3) have eq: "node' = mapping'" by simp
  show "trie_depth (length flds) mapping'"
    using n(2) eq e(2) by simp
  show "get_keys mapping' ?ks = Some v"
    using n(3) eq by simp
  show "get_keys mapping' ks' = get_keys mapping ks'"
    if "length ks' = length flds" "ks' \<noteq> ?ks"
    using n(4) eq e(2) that by simp
qed

lemma add_entry_succeeds:
  assumes "trie_depth (length flds) mapping" and "delim \<noteq> []"
    and "length (recombine flds a (split_from delim [] key)) = length flds"
  shows "\<exists>mapping'. add_entry nm path flds delim a (key, v) mapping = Inr mapping'"
proof -
  let ?ks = "recombine flds a (split_from delim [] key)"
  from insert_keys_trie [of ?ks mapping 0 "length flds" v] assms(1,3) recombine_not_Nil
  obtain node' where "insert_keys (length flds) 0 ?ks v mapping = Inr node'"
    by auto
  then show ?thesis
    using assms(2,3) by (simp add: add_entry_def py_split_def Let_def)
qed

lemma add_entries_keep:
  assumes "trie_depth (length flds) mapping"
    and "add_entries nm path flds delim a post mapping = Inr mapping'"
    and "\<forall>(key', v') \<in> set post. recombine flds a (split_from delim [] key') \<noteq> ks"
    and "length ks = length flds"
  shows "trie_depth (length flds) mapping' \<and> get_keys mapping' ks = get_keys mapping ks"
  using assms(1,2,3)
proof (induction post arbitrary: mapping)
  case Nil
  then show ?case by simp
next
  case (Cons entry post)
  obtain key v where entry: "entry = (key, v)" by (cases entry) auto
  from Cons.prems(2) obtain m1 where
    m1: "add_entry nm path flds delim a (key, v) mapping = Inr m1"
        "add_entries nm path flds delim a post m1 = Inr mapping'"
    unfolding entry by (auto split: sum.splits)
  have ne: "ks \<noteq> recombine flds a (split_from delim [] key)"
    using Cons.prems(3) entry by auto
  from add_entry_trie [OF Cons.prems(1) m1(1)] assms(4) ne
  have d: "trie_depth (length flds) m1" and k: "get_keys m1 ks = get_keys mapping ks"
    by simp_all
  from Cons.IH [OF d m1(2)] Cons.prems(3) k show ?case
    by simp
qed

lemma add_entries_depth:
  "trie_depth (length flds) mapping \<Longrightarrow>
   add_entries nm path flds delim a template mapping = Inr mapping' \<Longrightarrow>
   trie_depth (length flds) mapping'"
proof (induction template arbitrary: mapping)
  case Nil
  then show ?case by simp
next
  case (Cons entry template)
  obtain key v where entry: "entry = (key, v)" by (cases entry) auto
  from Cons.prems(2) obtain m1 where
    m1: "add_entry nm path flds delim a (key, v) mapping = Inr m1"
        "add_entries nm path flds delim a template m1 = Inr mapping'"
    unfolding entry by (auto split: sum.splits)
  from add_entry_trie(1) [OF Cons.prems(1) m1(1)] Cons.IH m1(2) show ?case
    by simp
qed

lemma add_entries_append:
  "add_entries nm path flds delim a (pre @ rest) mapping =
     (case add_entries nm path flds delim a pre mapping of
        Inl e \<Rightarrow> Inl e
      | Inr m \<Rightarrow> add_entries nm path flds delim a rest m)"
  by (induction pre arbitrary: mapping) (auto split: sum.splits)

lemma lookup_fields_get_keys:
  assumes "trie_depth (length flds) node"
    and "get_keys node (map (\<lambda>f. str (get_dotted_field_value event f)) flds) = Some v"
    and "\<forall>f \<in> set flds. get_dotted_field_value event f \<noteq> VNone"
  shows "lookup_fields str event flds node = Inr v"
  using assms
proof (induction flds arbitrary: node)
  case Nil
  then show ?case by simp
next
  case (Cons f flds)
  from Cons.prems(1) obtain d where d: "node = VDict d"
    by (cases node) auto
  from Cons.prems(2) d obtain c where
    c: "map_of d (str (get_dotted_field_value event f)) = Some c"
       "get_keys c (map (\<lambda>f. str (get_dotted_field_value event f)) flds) = Some v"
    by (auto split: option.splits)
  have nn: "get_dotted_field_value event f \<noteq> VNone"
    using Cons.prems(3) by simp
  have depth: "trie_depth (length flds) c"
    using trie_depth_child(1) [of "length flds" d _ c] Cons.prems(1) d c(1) by simp
  show ?case
  proof (cases "flds = []")
    case True
    with c(2) have "c = v" by simp
    with True d c(1) nn show ?thesis
      by (cases v) (simp_all add: Let_def)
  next
    case False
    then have "py_truthy c"
      using trie_depth_child(2) [of "length flds" d _ c] Cons.prems(1) d c(1) by simp
    then have "c \<noteq> VNone" by auto
    moreover have "lookup_fields str event flds c = Inr v"
      using Cons.IH [OF depth c(2)] Cons.prems(3) by simp
    ultimately show ?thesis
      using d c(1) nn by (cases c) (simp_all add: Let_def)
  qed
qed

text \<open>
  Claim C10. When \<^verbatim>\<open>__init__\<close> succeeds and no entry after \<open>(key, v)\<close> in the
  template recombines to the keys of \<open>key\<close>, the index holds \<open>v\<close> under these keys,
  whatever an earlier entry with the same keys had put there; and an event whose fields
  have these keys as their texts is led by the lookup loop of \<^verbatim>\<open>_apply_rules\<close> to
  \<open>v\<close>.
\<close>

theorem later_entry_wins:
  assumes "TemplateReplacer_init nm path pat template = Inr self"
    and "py_index (pat_fields pat) (pat_allowed_delimiter_field pat) = Inr a"
    and "template = pre @ (key, v) # post"
    and "\<forall>(key', v') \<in> set post.
           recombine (pat_fields pat) a (split_from (pat_delimiter pat) [] key') \<noteq>
           recombine (pat_fields pat) a (split_from (pat_delimiter pat) [] key)"
    and "map (\<lambda>f. str (get_dotted_field_value event f)) (pat_fields pat) =
           recombine (pat_fields pat) a (split_from (pat_delimiter pat) [] key)"
    and "\<forall>f \<in> set (pat_fields pat). get_dotted_field_value event f \<noteq> VNone"
  shows "get_keys (tr_mapping self)
           (recombine (pat_fields pat) a (split_from (pat_delimiter pat) [] key)) = Some v \<and>
         lookup_fields str event (tr_fields self) (tr_mapping self) = Inr v"
proof -
  let ?flds = "pat_fields pat"
  let ?delim = "pat_delimiter pat"
  let ?ks = "recombine ?flds a (split_from ?delim [] key)"
  let ?add = "add_entries nm path ?flds ?delim a"
  from assms(1,2) obtain mapping where
    built: "?add template (VDict []) = Inr mapping"
    and self: "tr_mapping self = mapping" "tr_fields self = ?flds"
    by (auto simp: TemplateReplacer_init_def split: sum.splits)
  have d0: "trie_depth (length ?flds) (VDict [])"
    by (cases "length ?flds") simp_all
  from built assms(3) obtain m1 where
    m1: "?add pre (VDict []) = Inr m1" "?add ((key, v) # post) m1 = Inr mapping"
    by (auto simp: add_entries_append split: sum.splits)
  from m1(2) obtain m2 where
    m2: "add_entry nm path ?flds ?delim a (key, v) m1 = Inr m2" "?add post m2 = Inr mapping"
    by (auto split: sum.splits)
  have d1: "trie_depth (length ?flds) m1"
    using add_entries_depth [OF d0 m1(1)] .
  note e = add_entry_trie(1,2) [OF d1 m2(1)]
  have len: "length ?ks = length ?flds"
    using add_entry_Inr(2) [OF m2(1)] .
  from add_entries_keep [OF e(1) m2(2) assms(4) len] e(2)
  have final: "trie_depth (length ?flds) mapping" "get_keys mapping ?ks = Some v"
    by simp_all
  have "lookup_fields str event ?flds mapping = Inr v"
    using final assms(5,6) by (intro lookup_fields_get_keys) simp_all
  with final(2) self show ?thesis
    by simp
qed

theorem later_entry_wins_witness:
  "TemplateReplacer_init ''t'' ''t.yml''
     \<lparr>pat_target_field = ''target'', pat_fields = [''a'', ''b''], pat_delimiter = ''_'',
      pat_allowed_delimiter_field = ''a''\<rparr>
     [(''x_y_c'', VStr ''first''), (''x-y_c'', VStr ''second'')] =
   Inr \<lparr>tr_name = ''t'', tr_target_field = ''target'', tr_target_field_split = [''target''],
        tr_fields = [''a'', ''b''],
        tr_mapping = VDict [(''x-y'', VDict [(''c'', VStr ''second'')])]\<rparr> \<and>
   lookup_fields str_scalar [(''a'', VStr ''x-y''), (''b'', VStr ''c'')] [''a'', ''b'']
     (VDict [(''x-y'', VDict [(''c'', VStr ''second'')])]) = Inr (VStr ''second'')"
proof -
  let ?pat = "\<lparr>pat_target_field = ''target'', pat_fields = [''a'', ''b''], pat_delimiter = ''_'',
                pat_allowed_delimiter_field = ''a''\<rparr>"
  let ?self = "\<lparr>tr_name = ''t'', tr_target_field = ''target'',
                 tr_target_field_split = [''target''], tr_fields = [''a'', ''b''],
                 tr_mapping = VDict [(''x-y'', VDict [(''c'', VStr ''second'')])]\<rparr>"
  have i: "TemplateReplacer_init ''t'' ''t.yml'' ?pat
             [(''x_y_c'', VStr ''first''), (''x-y_c'', VStr ''second'')] = Inr ?self"
    by (simp add: TemplateReplacer_init_def add_entry_def py_split_def recombine_def
        slice_to_def slice_from_def slice_bound_def)
  have a: "py_index (pat_fields ?pat) (pat_allowed_delimiter_field ?pat) = Inr 0"
    by simp
  have t: "[(''x_y_c'', VStr ''first''), (''x-y_c'', VStr ''second'')] =
             [(''x_y_c'', VStr ''first'')] @ (''x-y_c'', VStr ''second'') # []"
    by simp
  have k: "map (\<lambda>f. str_scalar (get_dotted_field_value
                                   [(''a'', VStr ''x-y''), (''b'', VStr ''c'')] f))
             (pat_fields ?pat) =
           recombine (pat_fields ?pat) 0 (split_from (pat_delimiter ?pat) [] ''x-y_c'')"
    by (simp add: get_dotted_field_value_def str_scalar_def recombine_def
        slice_to_def slice_from_def slice_bound_def)
  have n: "\<forall>f \<in> set (pat_fields ?pat).
             get_dotted_field_value [(''a'', VStr ''x-y''), (''b'', VStr ''c'')] f \<noteq> VNone"
    by (simp add: get_dotted_field_value_def)
  from later_entry_wins [OF i a t _ k n] i show ?thesis
    by simp
qed

section \<open>Recombining a template key\<close>

lemma recombine_inner:
  assumes "a + 1 < length flds"
  shows "recombine flds a tokens =
           take a tokens @
           [py_join ''-'' (take (length tokens - a - (length flds - a - 1)) (drop a tokens))] @
           drop (length tokens - a - (length flds - a - 1)) (drop a tokens)"
proof -
  have neg: "- (int (length flds) - int a - 1) < 0"
    using assms by simp
  have b: "slice_bound (length (drop a tokens)) (- (int (length flds) - int a - 1)) =
             length tokens - a - (length flds - a - 1)"
    using assms by (simp add: slice_bound_def)
  have l: "slice_to tokens (int a) = take a tokens"
    by (simp add: slice_to_def slice_bound_def min_def)
  have r: "slice_from tokens (int a) = drop a tokens"
    by (simp add: slice_from_def slice_bound_def min_def)
  show ?thesis
    unfolding recombine_def Let_def l r
    by (simp only: slice_to_def slice_from_def b)
qed

lemma recombine_length:
  assumes "a + 1 < length flds"
  shows "length (recombine flds a tokens) \<noteq> length flds \<longleftrightarrow> length tokens + 1 < length flds"
  using assms by (simp add: recombine_inner [OF assms]) linarith

lemma insert_keys_errors:
  "insert_keys n idx ks v node = Inl e \<Longrightarrow> e = AttributeError \<or> e = TypeError"
proof (induction ks arbitrary: idx node)
  case Nil
  then show ?case by simp
next
  case (Cons k ks)
  then show ?case
    by (cases node) (auto simp: Let_def split: if_splits sum.splits)
qed

lemma add_entry_not_enough:
  assumes "delim \<noteq> []"
  shows "add_entry nm path flds delim a (key, v) mapping =
           Inl (TemplateReplacerError nm (NotEnoughDelimiters path flds)) \<longleftrightarrow>
         length (recombine flds a (split_from delim [] key)) \<noteq> length flds"
proof (cases "length (recombine flds a (split_from delim [] key)) = length flds")
  case False
  with assms show ?thesis
    by (simp add: add_entry_def py_split_def Let_def)
next
  case True
  let ?ins = "insert_keys (length flds) 0 (recombine flds a (split_from delim [] key)) v mapping"
  have "add_entry nm path flds delim a (key, v) mapping \<noteq>
          Inl (TemplateReplacerError nm (NotEnoughDelimiters path flds))"
  proof (cases ?ins)
    case (Inl e)
    with insert_keys_errors [OF Inl] assms True show ?thesis
      by (auto simp: add_entry_def py_split_def Let_def)
  next
    case (Inr m)
    with assms True show ?thesis
      by (simp add: add_entry_def py_split_def Let_def)
  qed
  with True show ?thesis by simp
qed

lemma add_entries_succeed:
  assumes "delim \<noteq> []"
  shows "trie_depth (length flds) mapping \<Longrightarrow>
         \<forall>(key, v) \<in> set template.
            length (recombine flds a (split_from delim [] key)) = length flds \<Longrightarrow>
         \<exists>mapping'. add_entries nm path flds delim a template mapping = Inr mapping'"
proof (induction template arbitrary: mapping)
  case Nil
  show ?case by simp
next
  case (Cons entry template)
  obtain key v where entry: "entry = (key, v)" by (cases entry) auto
  have len: "length (recombine flds a (split_from delim [] key)) = length flds"
    using Cons.prems(2) entry by simp
  from add_entry_succeeds [OF Cons.prems(1) assms len] obtain m1 where
    m1: "add_entry nm path flds delim a (key, v) mapping = Inr m1"
    by blast
  have "trie_depth (length flds) m1"
    using add_entry_trie(1) [OF Cons.prems(1) m1] .
  from Cons.IH [OF this] Cons.prems(2) obtain mapping' where
    "add_entries nm path flds delim a template m1 = Inr mapping'"
    by auto
  with m1 entry show ?case by simp
qed

text \<open>
  Claim C2, as the code has it. With a non-empty delimiter and the field that may contain
  the delimiter not the last one (\<open>a + 1 < F\<close> for \<open>F\<close> fields): the recombined keys
  are the first \<open>a\<close> tokens, then the tokens after them but for the last \<open>F - a - 1\<close>
  joined with \<^verbatim>\<open>"-"\<close>, then those last \<open>F - a - 1\<close> tokens. The entry is refused
  with the error that carries the template path and the list of fields exactly when the
  recombined keys are not \<open>F\<close> many, which is when the key has fewer than \<open>F - 1\<close>
  tokens. A template all of whose keys split into exactly \<open>F\<close> tokens is built without
  an error.
\<close>

theorem recombine_and_check:
  assumes "delim \<noteq> []" and "a + 1 < length flds"
  shows "recombine flds a tokens =
           take a tokens @
           [py_join ''-'' (take (length tokens - a - (length flds - a - 1)) (drop a tokens))] @
           drop (length tokens - a - (length flds - a - 1)) (drop a tokens) \<and>
         (add_entry nm path flds delim a (key, v) mapping =
            Inl (TemplateReplacerError nm (NotEnoughDelimiters path flds)) \<longleftrightarrow>
          length (recombine flds a (split_from delim [] key)) \<noteq> length flds) \<and>
         (length (recombine flds a tokens) \<noteq> length flds \<longleftrightarrow>
          length tokens + 1 < length flds) \<and>
         ((\<forall>(key, v) \<in> set template. length (split_from delim [] key) = length flds) \<longrightarrow>
          (\<exists>mapping'. add_entries nm path flds delim a template (VDict []) = Inr mapping'))"
proof (intro conjI impI)
  show "recombine flds a tokens =
           take a tokens @
           [py_join ''-'' (take (length tokens - a - (length flds - a - 1)) (drop a tokens))] @
           drop (length tokens - a - (length flds - a - 1)) (drop a tokens)"
    using assms(2) by (rule recombine_inner)
  show "add_entry nm path flds delim a (key, v) mapping =
            Inl (TemplateReplacerError nm (NotEnoughDelimiters path flds)) \<longleftrightarrow>
          length (recombine flds a (split_from delim [] key)) \<noteq> length flds"
    using assms(1) by (rule add_entry_not_enough)
  show "length (recombine flds a tokens) \<noteq> length flds \<longleftrightarrow> length tokens + 1 < length flds"
    using assms(2) by (rule recombine_length)
next
  assume all: "\<forall>(key, v) \<in> set template. length (split_from delim [] key) = length flds"
  have "\<forall>(key, v) \<in> set template.
          length (recombine flds a (split_from delim [] key)) = length flds"
  proof (clarify)
    fix key v
    assume "(key, v) \<in> set template"
    with all have "length (split_from delim [] key) = length flds" by auto
    then show "length (recombine flds a (split_from delim [] key)) = length flds"
      using recombine_length [OF assms(2), of "split_from delim [] key"] by simp
  qed
  moreover have "trie_depth (length flds) (VDict [])"
    by (cases "length flds") simp_all
  ultimately show "\<exists>mapping'. add_entries nm path flds delim a template (VDict []) = Inr mapping'"
    using add_entries_succeed [OF assms(1)] by blast
qed

theorem recombine_and_check_witness:
  "recombine [''a'', ''b''] 0 (split_from ''-'' [] ''foo-extra-bar'') = [''foo-extra'', ''bar''] \<and>
   add_entry ''t'' ''t.yml'' [''a'', ''b''] ''-'' 0 (''foo'', VStr ''Z'') (VDict []) \<noteq>
     Inl (TemplateReplacerError ''t'' (NotEnoughDelimiters ''t.yml'' [''a'', ''b''])) \<and>
   add_entries ''t'' ''t.yml'' [''a'', ''b''] ''-'' 0 [(''foo-bar'', VStr ''Z'')] (VDict []) =
     Inr (VDict [(''foo'', VDict [(''bar'', VStr ''Z'')])])"
  using recombine_and_check [of "''-''" 0 "[''a'', ''b'']" "split_from ''-'' [] ''foo-extra-bar''"
      "''t''" "''t.yml''" "''foo''" "VStr ''Z''" "VDict []" "[(''foo-bar'', VStr ''Z'')]"]
  by (simp add: add_entry_def py_split_def recombine_def slice_to_def slice_from_def
      slice_bound_def)

text \<open>
  Claim C2 as worded does not hold. With the last field as the one that may contain the
  delimiter the slice bound is \<^verbatim>\<open>-0\<close>: the middle is empty and the right part is
  everything, so a key of exactly two tokens for two fields recombines to three keys and
  is refused. And the error is the same for the keys \<^verbatim>\<open>x\<close> and \<^verbatim>\<open>y\<close>: it
  carries the template path and the fields, not the key.
\<close>

theorem exactly_F_tokens_counterexample:
  "length (split_from ''-'' [] ''foo-bar'') = length [''a'', ''b''] \<and>
   py_index [''a'', ''b''] ''b'' = Inr 1 \<and>
   recombine [''a'', ''b''] 1 (split_from ''-'' [] ''foo-bar'') = [''foo'', '''', ''bar''] \<and>
   TemplateReplacer_init ''t'' ''t.yml''
     \<lparr>pat_target_field = ''target'', pat_fields = [''a'', ''b''], pat_delimiter = ''-'',
      pat_allowed_delimiter_field = ''b''\<rparr>
     [(''foo-bar'', VStr ''Z'')] =
   Inl (TemplateReplacerError ''t'' (NotEnoughDelimiters ''t.yml'' [''a'', ''b''])) \<and>
   TemplateReplacer_init ''t'' ''t.yml''
     \<lparr>pat_target_field = ''target'', pat_fields = [''a'', ''b'', ''c''], pat_delimiter = ''-'',
      pat_allowed_delimiter_field = ''a''\<rparr>
     [(''x'', VStr ''Z'')] =
   Inl (TemplateReplacerError ''t'' (NotEnoughDelimiters ''t.yml'' [''a'', ''b'', ''c''])) \<and>
   TemplateReplacer_init ''t'' ''t.yml''
     \<lparr>pat_target_field = ''target'', pat_fields = [''a'', ''b'', ''c''], pat_delimiter = ''-'',
      pat_allowed_delimiter_field = ''a''\<rparr>
     [(''y'', VStr ''Z'')] =
   Inl (TemplateReplacerError ''t'' (NotEnoughDelimiters ''t.yml'' [''a'', ''b'', ''c'']))"
  by (simp add: TemplateReplacer_init_def add_entry_def py_split_def recombine_def
      slice_to_def slice_from_def slice_bound_def)

end
